theory Spec2Isabelle
  imports Complex_Main "HOL-Library.AList"
begin

section \<open>Configuration and random numbers\<close>

text \<open>
  The constants of \<^verbatim>\<open>CONFIG\<close> that the simulation engine reads. The mutation chance
  is the decimal 0.2 of the source, read as a real number.
\<close>

definition gridSize :: nat where
  "gridSize = 50"

definition mutationChance :: real where
  "mutationChance = 2 / 10"

text \<open>
  \<^verbatim>\<open>Math.random()\<close> returns a number \<open>u\<close> with \<open>0 \<le> u < 1\<close>. The hidden generator is
  an infinite sequence of numbers and a cursor: the call made at cursor \<open>k\<close> reads the
  element \<open>k\<close>, and the caller goes on at \<open>k + 1\<close>. The fractional part keeps every
  element in the range of \<^verbatim>\<open>Math.random()\<close>, whatever the sequence holds, so that
  every sequence is an outcome of the random draws and every outcome is a sequence.
\<close>

type_synonym rng = "nat \<Rightarrow> real"

definition random :: "rng \<Rightarrow> nat \<Rightarrow> real" where
  "random rnd k = frac (rnd k)"

text \<open>\<^verbatim>\<open>Math.floor(Math.random() * n)\<close>\<close>

definition randomIndex :: "rng \<Rightarrow> nat \<Rightarrow> nat \<Rightarrow> nat" where
  "randomIndex rnd k n = nat \<lfloor>random rnd k * real n\<rfloor>"

section \<open>Gene vectors\<close>

datatype geneType = Attack | Defense | Speed | Hp

definition GENE_TYPES :: "geneType list" where
  "GENE_TYPES = [Attack, Defense, Speed, Hp]"

fun GENE_SYMBOL :: "geneType \<Rightarrow> char" where
  "GENE_SYMBOL Attack = CHR ''A''"
| "GENE_SYMBOL Defense = CHR ''D''"
| "GENE_SYMBOL Speed = CHR ''S''"
| "GENE_SYMBOL Hp = CHR ''H''"

text \<open>
  A gene vector is the object \<^verbatim>\<open>{ attack, defense, speed, hp }\<close> of counts. The counts
  start at 0 and are only ever incremented, or decremented where they are positive, so
  they are natural numbers.
\<close>

record genes =
  attack :: nat
  defense :: nat
  speed :: nat
  hp :: nat

text \<open>\<^verbatim>\<open>genes[type]\<close>, \<^verbatim>\<open>genes[type] += 1\<close> and \<^verbatim>\<open>genes[type] -= 1\<close>\<close>

fun geneGet :: "genes \<Rightarrow> geneType \<Rightarrow> nat" where
  "geneGet g Attack = attack g"
| "geneGet g Defense = defense g"
| "geneGet g Speed = speed g"
| "geneGet g Hp = hp g"

fun geneInc :: "genes \<Rightarrow> geneType \<Rightarrow> genes" where
  "geneInc g Attack = g\<lparr>attack := attack g + 1\<rparr>"
| "geneInc g Defense = g\<lparr>defense := defense g + 1\<rparr>"
| "geneInc g Speed = g\<lparr>speed := speed g + 1\<rparr>"
| "geneInc g Hp = g\<lparr>hp := hp g + 1\<rparr>"

fun geneDec :: "genes \<Rightarrow> geneType \<Rightarrow> genes" where
  "geneDec g Attack = g\<lparr>attack := attack g - 1\<rparr>"
| "geneDec g Defense = g\<lparr>defense := defense g - 1\<rparr>"
| "geneDec g Speed = g\<lparr>speed := speed g - 1\<rparr>"
| "geneDec g Hp = g\<lparr>hp := hp g - 1\<rparr>"

text \<open>The category sum \<^verbatim>\<open>GENE_TYPES.reduce((sum, type) => sum + genes[type], 0)\<close>.\<close>

definition geneTotal :: "genes \<Rightarrow> nat" where
  "geneTotal g = fold (\<lambda>t sum. sum + geneGet g t) GENE_TYPES 0"

text \<open>
  \<^verbatim>\<open>randomGenes(total)\<close>: the loop hands out \<open>total\<close> units, one draw each; then a
  zero \<open>hp\<close> is set to 1. \<open>distributeGenes\<close> is the loop, with the number of rounds
  left as its counter.
\<close>

fun distributeGenes :: "rng \<Rightarrow> nat \<Rightarrow> nat \<Rightarrow> genes \<Rightarrow> genes \<times> nat" where
  "distributeGenes rnd k 0 g = (g, k)"
| "distributeGenes rnd k (Suc n) g =
     distributeGenes rnd (Suc k) n
       (geneInc g (GENE_TYPES ! randomIndex rnd k (length GENE_TYPES)))"

definition randomGenes :: "rng \<Rightarrow> nat \<Rightarrow> nat \<Rightarrow> genes \<times> nat" where
  "randomGenes rnd k total_n =
     (let (g, k') = distributeGenes rnd k total_n
                      \<lparr>attack = 0, defense = 0, speed = 0, hp = 0\<rparr>
      in (if hp g = 0 then g\<lparr>hp := 1\<rparr> else g, k'))"

text \<open>
  \<^verbatim>\<open>genesToCode\<close>: for each type in the order of \<^verbatim>\<open>GENE_TYPES\<close>, the symbol of the
  type repeated count times; the pieces joined with the empty separator.
\<close>

definition genesToCode :: "genes \<Rightarrow> string" where
  "genesToCode g =
     concat (map (\<lambda>t. replicate (geneGet g t) (GENE_SYMBOL t)) GENE_TYPES)"

section \<open>Mutation\<close>

datatype error = TypeError | Diverges

text \<open>
  The \<^verbatim>\<open>do ... while (to === from && GENE_TYPES.length > 1)\<close> loop of
  \<^verbatim>\<open>mutateGenes\<close> draws a destination until it differs from the source category.
  Nothing bounds the number of draws, so the loop is a partial function: \<open>None\<close> is
  the run that never leaves the loop.
\<close>

partial_function (option) pickTo :: "rng \<Rightarrow> nat \<Rightarrow> geneType \<Rightarrow> (geneType \<times> nat) option" where
  "pickTo rnd k from_t =
     (let to_t = GENE_TYPES ! randomIndex rnd k (length GENE_TYPES)
      in if to_t = from_t \<and> length GENE_TYPES > 1 then pickTo rnd (Suc k) from_t
         else Some (to_t, Suc k))"

text \<open>
  \<^verbatim>\<open>mutateGenes(genes)\<close>. The result is the new gene vector and the cursor of the
  random sequence after the draws made; \<open>Inl Diverges\<close> stands for the run in which
  the destination loop never ends.
\<close>

definition mutateGenes :: "rng \<Rightarrow> nat \<Rightarrow> genes \<Rightarrow> error + (genes \<times> nat)" where
  "mutateGenes rnd k g =
     (let newGenes = g
      in if random rnd k < mutationChance then
           (let fromTypes =
                  filter (\<lambda>t. geneGet newGenes t > (if t = Hp then 1 else 0)) GENE_TYPES
            in if length fromTypes > 0 then
                 (let from_t = fromTypes ! randomIndex rnd (k + 1) (length fromTypes)
                  in case pickTo rnd (k + 2) from_t of
                       None \<Rightarrow> Inl Diverges
                     | Some (to_t, k') \<Rightarrow> Inr (geneInc (geneDec newGenes from_t) to_t, k'))
               else Inr (newGenes, k + 1))
         else Inr (newGenes, k + 1))"

section \<open>Agents, the grid and the registry\<close>

text \<open>
  A \<^verbatim>\<open>Pixel\<close> object. The fields \<^verbatim>\<open>id\<close>, \<^verbatim>\<open>x\<close>, \<^verbatim>\<open>y\<close> and \<^verbatim>\<open>hp\<close> are
  \<open>pid\<close>, \<open>px\<close>, \<open>py\<close> and \<open>php\<close> here. Coordinates are natural numbers: every
  pixel is built from clamped or bounds-checked coordinates. \<open>php\<close> is an integer,
  since damage takes it below zero. The cached \<^verbatim>\<open>color\<close> is read by the renderer
  only and is left out.
\<close>

record pixel =
  pid :: nat
  px :: nat
  py :: nat
  genes :: genes
  populationId :: nat
  maxHp :: int
  php :: int
  geneCode :: string

text \<open>
  The global state: \<^verbatim>\<open>board\<close> (rows indexed by \<open>y\<close>, cells by \<open>x\<close>; a cell is
  \<^verbatim>\<open>null\<close> or an id), the \<^verbatim>\<open>pixels\<close> map in its insertion order, the id counter
  and the combat log. The objects of live pixels are the values of the map; the object
  with id \<open>i\<close> is the one stored under key \<open>i\<close>, so a write to a field of a live
  pixel is a write to its entry.
\<close>

type_synonym cell = "nat option"

record world =
  board :: "cell list list"
  pixels :: "(nat \<times> pixel) list"
  pixelIdCounter :: nat
  combatLogs :: "string list"

text \<open>
  The truth value JavaScript gives a cell in \<^verbatim>\<open>if (board[y][x])\<close> and
  \<^verbatim>\<open>!occupantId\<close>: \<^verbatim>\<open>null\<close>, \<^verbatim>\<open>undefined\<close> and the number 0 are false.
\<close>

definition truthy :: "cell \<Rightarrow> bool" where
  "truthy c = (case c of None \<Rightarrow> False | Some i \<Rightarrow> i \<noteq> 0)"

text \<open>
  \<^verbatim>\<open>board[y][x]\<close>: a row index outside the array gives \<^verbatim>\<open>undefined\<close>, and reading a
  property of it throws a TypeError; a column index outside the row gives
  \<^verbatim>\<open>undefined\<close>, which is \<open>None\<close> here like \<^verbatim>\<open>null\<close> (the code only tests cells
  for truth and compares them with ids).
\<close>

definition boardGet :: "cell list list \<Rightarrow> nat \<Rightarrow> nat \<Rightarrow> error + cell" where
  "boardGet b y x =
     (if y < length b then Inr (if x < length (b ! y) then b ! y ! x else None)
      else Inl TypeError)"

text \<open>\<^verbatim>\<open>board[y][x] = v\<close>: a write beyond the end of a row extends the row.\<close>

definition rowSet :: "cell list \<Rightarrow> nat \<Rightarrow> cell \<Rightarrow> cell list" where
  "rowSet r x v =
     (if x < length r then r[x := v] else r @ replicate (x - length r) None @ [v])"

definition boardSet :: "cell list list \<Rightarrow> nat \<Rightarrow> nat \<Rightarrow> cell \<Rightarrow> error + cell list list" where
  "boardSet b y x v =
     (if y < length b then Inr (b[y := rowSet (b ! y) x v]) else Inl TypeError)"

text \<open>A write to a field of the live pixel object with id \<open>i\<close>.\<close>

definition objWrite :: "nat \<Rightarrow> (pixel \<Rightarrow> pixel) \<Rightarrow> (nat \<times> pixel) list \<Rightarrow> (nat \<times> pixel) list" where
  "objWrite i f ps = map (\<lambda>(k, p). if k = i then (k, f p) else (k, p)) ps"

text \<open>
  \<^verbatim>\<open>new Pixel(x, y, genes, populationId)\<close>: takes the next id and moves the counter.
\<close>

definition newPixel :: "nat \<Rightarrow> nat \<Rightarrow> genes \<Rightarrow> nat \<Rightarrow> world \<Rightarrow> pixel \<times> world" where
  "newPixel x y g pop s =
     (\<lparr>pid = pixelIdCounter s, px = x, py = y, genes = g, populationId = pop,
       maxHp = max 1 (int (hp g)), php = max 1 (int (hp g)),
       geneCode = genesToCode g\<rparr>,
      s\<lparr>pixelIdCounter := pixelIdCounter s + 1\<rparr>)"

text \<open>\<^verbatim>\<open>placePixel(pixel)\<close>; \<^verbatim>\<open>Map.set\<close> keeps the place of a key already there.\<close>

definition placePixel :: "pixel \<Rightarrow> world \<Rightarrow> error + (bool \<times> world)" where
  "placePixel pixel s =
     (case boardGet (board s) (py pixel) (px pixel) of
        Inl e \<Rightarrow> Inl e
      | Inr c \<Rightarrow>
          if truthy c then Inr (False, s)
          else (case boardSet (board s) (py pixel) (px pixel) (Some (pid pixel)) of
                  Inl e \<Rightarrow> Inl e
                | Inr b \<Rightarrow>
                    Inr (True, s\<lparr>board := b,
                                 pixels := AList.update (pid pixel) pixel (pixels s)\<rparr>)))"

text \<open>\<^verbatim>\<open>removePixel(pixel)\<close>\<close>

definition removePixel :: "pixel \<Rightarrow> world \<Rightarrow> error + world" where
  "removePixel pixel s =
     (case boardSet (board s) (py pixel) (px pixel) None of
        Inl e \<Rightarrow> Inl e
      | Inr b \<Rightarrow> Inr (s\<lparr>board := b, pixels := AList.delete (pid pixel) (pixels s)\<rparr>))"

definition clamp :: "int \<Rightarrow> int \<Rightarrow> int \<Rightarrow> int" where
  "clamp v lo hi = max lo (min hi v)"

text \<open>
  \<^verbatim>\<open>shuffle(array)\<close>: for \<open>i\<close> from the last index down to 1, swap the elements at
  \<open>i\<close> and at a drawn \<open>j \<le> i\<close>.
\<close>

fun shuffleFrom :: "rng \<Rightarrow> nat \<Rightarrow> nat \<Rightarrow> 'a list \<Rightarrow> 'a list \<times> nat" where
  "shuffleFrom rnd k 0 xs = (xs, k)"
| "shuffleFrom rnd k (Suc i) xs =
     (let j = randomIndex rnd k (Suc i + 1)
      in shuffleFrom rnd (Suc k) i (xs[Suc i := xs ! j, j := xs ! Suc i]))"

definition shuffle :: "rng \<Rightarrow> nat \<Rightarrow> 'a list \<Rightarrow> 'a list \<times> nat" where
  "shuffle rnd k xs = shuffleFrom rnd k (length xs - 1) xs"

section \<open>Reproduction\<close>

text \<open>The candidate offsets \<open>(dx, dy)\<close>, in the order the two nested loops push them.\<close>

definition offsets :: "(int \<times> int) list" where
  "offsets =
     concat (map (\<lambda>dy. concat (map (\<lambda>dx.
        if \<bar>dx\<bar> + \<bar>dy\<bar> = 0 then []
        else if \<bar>dx\<bar> + \<bar>dy\<bar> > 2 then []
        else [(dx, dy)]) [-2..2])) [-2..2])"

text \<open>The loop of \<^verbatim>\<open>createOffspring\<close> over the shuffled offsets.\<close>

fun tryOffsets :: "rng \<Rightarrow> nat \<Rightarrow> pixel \<Rightarrow> (int \<times> int) list \<Rightarrow> world \<Rightarrow> error + (nat \<times> world)" where
  "tryOffsets rnd k parent [] s = Inr (k, s)"
| "tryOffsets rnd k parent ((dx, dy) # rest) s =
     (let nx = int (px parent) + dx; ny = int (py parent) + dy
      in if nx < 0 \<or> ny < 0 \<or> nx \<ge> int gridSize \<or> ny \<ge> int gridSize
         then tryOffsets rnd k parent rest s
         else (case boardGet (board s) (nat ny) (nat nx) of
                 Inl e \<Rightarrow> Inl e
               | Inr c \<Rightarrow>
                   if truthy c then tryOffsets rnd k parent rest s
                   else (case mutateGenes rnd k (genes parent) of
                           Inl e \<Rightarrow> Inl e
                         | Inr (g, k') \<Rightarrow>
                             (let (child, s1) =
                                    newPixel (nat nx) (nat ny) g (populationId parent) s
                              in case placePixel child s1 of
                                   Inl e \<Rightarrow> Inl e
                                 | Inr (placed, s2) \<Rightarrow> Inr (k', s2)))))"

definition createOffspring :: "rng \<Rightarrow> nat \<Rightarrow> pixel \<Rightarrow> world \<Rightarrow> error + (nat \<times> world)" where
  "createOffspring rnd k parent s =
     (let (shuffled, k1) = shuffle rnd k offsets
      in tryOffsets rnd k1 parent shuffled s)"

section \<open>Combat\<close>

text \<open>
  The \<^verbatim>\<open>while\<close> loop of \<^verbatim>\<open>resolveCombat\<close> on the two pixel objects. The flag says
  whether \<^verbatim>\<open>turn\<close> is the attacker (then \<^verbatim>\<open>opponent\<close> is the defender), and the
  swap of the two variables negates it. The last component is a record of the turns
  taken, oldest first: who dealt the damage, and how much. The code keeps no such
  record; it is there to state properties of the order of turns.
\<close>

datatype side = AttackerSide | DefenderSide

function duelLoop :: "pixel \<Rightarrow> pixel \<Rightarrow> bool \<Rightarrow> (side \<times> int) list
    \<Rightarrow> pixel \<times> pixel \<times> (side \<times> int) list" where
  "duelLoop attacker defender turnIsAttacker turns =
     (if php attacker > 0 \<and> php defender > 0 then
        (let turn = (if turnIsAttacker then attacker else defender);
             opponent = (if turnIsAttacker then defender else attacker);
             damage = max 1 (int (attack (genes turn)) - int (defense (genes opponent)));
             opponent' = opponent\<lparr>php := php opponent - damage\<rparr>;
             attacker' = (if turnIsAttacker then attacker else opponent');
             defender' = (if turnIsAttacker then opponent' else defender);
             turns' = turns @ [(if turnIsAttacker then AttackerSide else DefenderSide, damage)]
         in if php opponent' \<le> 0 then (attacker', defender', turns')
            else duelLoop attacker' defender' (\<not> turnIsAttacker) turns')
      else (attacker, defender, turns))"
  by pat_completeness auto
termination
  by (relation "measure (\<lambda>(a, d, t, ts). nat (php a) + nat (php d))") auto

text \<open>
  The choice of \<^verbatim>\<open>first\<close> and the loop: \<^verbatim>\<open>first\<close> is the attacker unless the
  defender's speed is strictly higher.
\<close>

definition firstIsAttacker :: "pixel \<Rightarrow> pixel \<Rightarrow> bool" where
  "firstIsAttacker attacker defender =
     (if speed (genes attacker) > speed (genes defender) then True
      else if speed (genes attacker) < speed (genes defender) then False
      else True)"

definition duel :: "pixel \<Rightarrow> pixel \<Rightarrow> pixel \<times> pixel \<times> (side \<times> int) list" where
  "duel attacker defender =
     duelLoop attacker defender (firstIsAttacker attacker defender) []"

text \<open>
  \<^verbatim>\<open>logCombat(winner, loser)\<close>: the entry is pushed and the log cut to its last 20
  entries. An empty gene code is false in \<^verbatim>\<open>geneCode || "?"\<close>.
\<close>

definition logCombat :: "pixel \<Rightarrow> pixel \<Rightarrow> world \<Rightarrow> world" where
  "logCombat winner loser s =
     (let entry = (if geneCode winner = [] then ''?'' else geneCode winner) @ '' kill '' @
                  (if geneCode loser = [] then ''?'' else geneCode loser);
          logs = combatLogs s @ [entry]
      in s\<lparr>combatLogs := (if length logs > 20 then drop (length logs - 20) logs else logs)\<rparr>)"

text \<open>
  \<^verbatim>\<open>resolveCombat(attacker, defender)\<close>. The hit points the loop leaves on the two
  objects are written to their registry entries; then the winner is chosen, the combat
  logged, a loser without hit points removed, the winner healed and its offspring
  created. The result is the winner object, the cursor of the random sequence and the
  new state.
\<close>

definition resolveCombat :: "rng \<Rightarrow> nat \<Rightarrow> pixel \<Rightarrow> pixel \<Rightarrow> world
    \<Rightarrow> error + (pixel \<times> nat \<times> world)" where
  "resolveCombat rnd k attacker defender s =
     (let (attacker', defender', turns) = duel attacker defender;
          s1 = s\<lparr>pixels := objWrite (pid defender') (\<lambda>p. p\<lparr>php := php defender'\<rparr>)
                             (objWrite (pid attacker') (\<lambda>p. p\<lparr>php := php attacker'\<rparr>)
                                (pixels s))\<rparr>;
          winner = (if php attacker' > 0 then attacker' else defender');
          loser = (if php attacker' > 0 then defender' else attacker');
          s2 = logCombat winner loser s1
      in case (if php loser \<le> 0 then removePixel loser s2 else Inr s2) of
           Inl e \<Rightarrow> Inl e
         | Inr s3 \<Rightarrow>
             (let winner' = winner\<lparr>php := maxHp winner\<rparr>;
                  s4 = s3\<lparr>pixels := objWrite (pid winner) (\<lambda>p. p\<lparr>php := maxHp winner\<rparr>)
                                      (pixels s3)\<rparr>
              in case createOffspring rnd k winner' s4 of
                   Inl e \<Rightarrow> Inl e
                 | Inr (k', s5) \<Rightarrow> Inr (winner', k', s5)))"

section \<open>The simulation step\<close>

definition directions :: "(int \<times> int) list" where
  "directions = [(1, 0), (-1, 0), (0, 1), (0, -1), (1, 1), (1, -1), (-1, 1), (-1, -1)]"

text \<open>
  The three assignments that move a pixel to \<open>(nx, ny)\<close>: its old cell is cleared,
  its coordinates are set, its id is written to the new cell.
\<close>

definition movePixel :: "pixel \<Rightarrow> nat \<Rightarrow> nat \<Rightarrow> world \<Rightarrow> error + (pixel \<times> world)" where
  "movePixel pixel nx ny s =
     (case boardSet (board s) (py pixel) (px pixel) None of
        Inl e \<Rightarrow> Inl e
      | Inr b1 \<Rightarrow>
          (let pixel' = pixel\<lparr>px := nx, py := ny\<rparr>;
               ps = objWrite (pid pixel) (\<lambda>p. p\<lparr>px := nx, py := ny\<rparr>) (pixels s)
           in case boardSet b1 ny nx (Some (pid pixel)) of
                Inl e \<Rightarrow> Inl e
              | Inr b2 \<Rightarrow> Inr (pixel', s\<lparr>board := b2, pixels := ps\<rparr>)))"

text \<open>
  One pass through the body of the inner \<^verbatim>\<open>for\<close> loop of \<^verbatim>\<open>stepSimulation\<close>. The
  flow says how the pass ends: \<open>Continue\<close> goes on with the next sub-step (the
  \<^verbatim>\<open>continue\<close> statements and the end of the body), \<open>Break\<close> ends the turn of the
  pixel. A cell that is tested true holds an id, which \<open>the\<close> reads.
  \<^verbatim>\<open>resolveCombat\<close> always returns an object, so the test \<^verbatim>\<open>!winner\<close> never holds.
\<close>

datatype flow = Continue | Break

definition subStep :: "rng \<Rightarrow> nat \<Rightarrow> pixel \<Rightarrow> world \<Rightarrow> error + (flow \<times> pixel \<times> nat \<times> world)" where
  "subStep rnd k pixel s =
     (let (dx, dy) = directions ! randomIndex rnd k (length directions);
          nx = nat (clamp (int (px pixel) + dx) 0 (int gridSize - 1));
          ny = nat (clamp (int (py pixel) + dy) 0 (int gridSize - 1))
      in if nx = px pixel \<and> ny = py pixel then Inr (Continue, pixel, k + 1, s)
         else (case boardGet (board s) ny nx of
                 Inl e \<Rightarrow> Inl e
               | Inr occupantId \<Rightarrow>
                   if \<not> truthy occupantId then
                     (case movePixel pixel nx ny s of
                        Inl e \<Rightarrow> Inl e
                      | Inr (pixel', s') \<Rightarrow> Inr (Continue, pixel', k + 1, s'))
                   else if occupantId \<noteq> Some (pid pixel) then
                     (case map_of (pixels s) (the occupantId) of
                        None \<Rightarrow> Inr (Continue, pixel, k + 1, s)
                      | Some opponent \<Rightarrow>
                          if geneCode pixel = geneCode opponent
                          then Inr (Continue, pixel, k + 1, s)
                          else (case resolveCombat rnd (k + 1) pixel opponent s of
                                  Inl e \<Rightarrow> Inl e
                                | Inr (winner, k', s') \<Rightarrow>
                                    if pid winner = pid pixel then
                                      (case movePixel winner nx ny s' of
                                         Inl e \<Rightarrow> Inl e
                                       | Inr (pixel', s'') \<Rightarrow> Inr (Break, pixel', k', s''))
                                    else Inr (Break, pixel, k', s')))
                   else Inr (Continue, pixel, k + 1, s)))"

text \<open>The inner loop: at most \<open>n\<close> sub-steps, fewer after a \<^verbatim>\<open>break\<close>.\<close>

fun subSteps :: "rng \<Rightarrow> nat \<Rightarrow> nat \<Rightarrow> pixel \<Rightarrow> world \<Rightarrow> error + (nat \<times> world)" where
  "subSteps rnd k 0 pixel s = Inr (k, s)"
| "subSteps rnd k (Suc n) pixel s =
     (case subStep rnd k pixel s of
        Inl e \<Rightarrow> Inl e
      | Inr (Break, pixel', k', s') \<Rightarrow> Inr (k', s')
      | Inr (Continue, pixel', k', s') \<Rightarrow> subSteps rnd k' n pixel' s')"

text \<open>
  The outer loop over the shuffled snapshot. The snapshot holds the pixel objects,
  given here by their ids; a pixel no longer in the registry is skipped, and the fields
  of a live one are those of its registry entry.
\<close>

fun pixelTurns :: "rng \<Rightarrow> nat \<Rightarrow> nat list \<Rightarrow> world \<Rightarrow> error + (nat \<times> world)" where
  "pixelTurns rnd k [] s = Inr (k, s)"
| "pixelTurns rnd k (i # rest) s =
     (case map_of (pixels s) i of
        None \<Rightarrow> pixelTurns rnd k rest s
      | Some pixel \<Rightarrow>
          (case subSteps rnd k (max 1 (speed (genes pixel))) pixel s of
             Inl e \<Rightarrow> Inl e
           | Inr (k', s') \<Rightarrow> pixelTurns rnd k' rest s'))"

definition stepSimulation :: "rng \<Rightarrow> nat \<Rightarrow> world \<Rightarrow> error + (nat \<times> world)" where
  "stepSimulation rnd k s =
     (let (currentPixels, k1) = shuffle rnd k (map (\<lambda>(i, p). pid p) (pixels s))
      in pixelTurns rnd k1 currentPixels s)"

section \<open>Seeding\<close>

definition populations :: nat where
  "populations = 6"

definition pixelsPerPopulation :: nat where
  "pixelsPerPopulation = 100"

definition genesPerPixel :: nat where
  "genesPerPixel = 8"

text \<open>
  The inner loop of \<^verbatim>\<open>initialisePopulations\<close>: two draws for the offsets, the clamped
  coordinates, a new pixel with a copy of the genes, and \<^verbatim>\<open>placePixel\<close>, whose result
  the loop does not look at. The counter is the number of rounds left.
\<close>

fun seedPixels :: "rng \<Rightarrow> nat \<Rightarrow> nat \<Rightarrow> genes \<Rightarrow> nat \<Rightarrow> nat \<Rightarrow> nat \<Rightarrow> world
    \<Rightarrow> error + (nat \<times> world)" where
  "seedPixels rnd k 0 g baseX baseY popId s = Inr (k, s)"
| "seedPixels rnd k (Suc n) g baseX baseY popId s =
     (let offsetX = int (randomIndex rnd k 5) - 2;
          offsetY = int (randomIndex rnd (k + 1) 5) - 2;
          x = nat (clamp (int baseX + offsetX) 0 (int gridSize - 1));
          y = nat (clamp (int baseY + offsetY) 0 (int gridSize - 1));
          (pixel, s1) = newPixel x y g popId s
      in case placePixel pixel s1 of
           Inl e \<Rightarrow> Inl e
         | Inr (placed, s2) \<Rightarrow> seedPixels rnd (k + 2) n g baseX baseY popId s2)"

text \<open>The outer loop: the genes and the base cell of a population, then its pixels.\<close>

fun seedPopulations :: "rng \<Rightarrow> nat \<Rightarrow> nat \<Rightarrow> nat \<Rightarrow> world \<Rightarrow> error + (nat \<times> world)" where
  "seedPopulations rnd k 0 popId s = Inr (k, s)"
| "seedPopulations rnd k (Suc n) popId s =
     (let (g, k1) = randomGenes rnd k genesPerPixel;
          baseX = randomIndex rnd k1 gridSize;
          baseY = randomIndex rnd (k1 + 1) gridSize
      in case seedPixels rnd (k1 + 2) pixelsPerPopulation g baseX baseY popId s of
           Inl e \<Rightarrow> Inl e
         | Inr (k2, s') \<Rightarrow> seedPopulations rnd k2 n (popId + 1) s')"

definition initialisePopulations :: "rng \<Rightarrow> nat \<Rightarrow> world \<Rightarrow> error + (nat \<times> world)" where
  "initialisePopulations rnd k s = seedPopulations rnd k populations 0 s"

section \<open>Notions used in the statements\<close>

text \<open>
  The category drawn at cursor \<open>k\<close> by
  \<^verbatim>\<open>GENE_TYPES[Math.floor(Math.random() * GENE_TYPES.length)]\<close>.
\<close>

definition geneDraw :: "rng \<Rightarrow> nat \<Rightarrow> geneType" where
  "geneDraw rnd k = GENE_TYPES ! randomIndex rnd k (length GENE_TYPES)"

text \<open>A random sequence whose draw at cursor 2 is 1/2 and every other draw 0.\<close>

definition rndMutate :: rng where
  "rndMutate = (\<lambda>i. if i = 2 then 1 / 2 else 0)"

text \<open>The damage of one turn: \<^verbatim>\<open>Math.max(1, turn.genes.attack - opponent.genes.defense)\<close>.\<close>

definition damageOf :: "pixel \<Rightarrow> pixel \<Rightarrow> int" where
  "damageOf turn opponent = max 1 (int (attack (genes turn)) - int (defense (genes opponent)))"

text \<open>
  What the duel loop leaves, started with both pixels alive: the two objects differ
  from the ones it was given in their hit points only, the record of turns is extended,
  exactly one of the two has hit points left, and the number of turns taken is at most
  twice the hit points the other one started with (one less if that one was hit first).
\<close>

definition duelOutcome :: "pixel \<Rightarrow> pixel \<Rightarrow> bool \<Rightarrow> (side \<times> int) list
    \<Rightarrow> pixel \<times> pixel \<times> (side \<times> int) list \<Rightarrow> bool" where
  "duelOutcome a d t ts r =
     (case r of (a', d', ts') \<Rightarrow>
        a' = a\<lparr>php := php a'\<rparr> \<and> d' = d\<lparr>php := php d'\<rparr> \<and>
        (\<exists>ext. ts' = ts @ ext \<and>
           ((0 < php a' \<and> php d' \<le> 0 \<and> int (length ext) + (if t then 1 else 0) \<le> 2 * php d) \<or>
            (php a' \<le> 0 \<and> 0 < php d' \<and> int (length ext) + (if t then 0 else 1) \<le> 2 * php a))))"

text \<open>
  The pixel \<^verbatim>\<open>new Pixel(x, y, genes, 0)\<close> builds when the id counter stands at \<open>i\<close>.
\<close>

definition pixelAt :: "nat \<Rightarrow> nat \<Rightarrow> nat \<Rightarrow> genes \<Rightarrow> pixel" where
  "pixelAt i x y g =
     \<lparr>pid = i, px = x, py = y, genes = g, populationId = 0,
      maxHp = max 1 (int (hp g)), php = max 1 (int (hp g)), geneCode = genesToCode g\<rparr>"

text \<open>Two pixels of equal speed with three hit points each, which deal one damage a turn.\<close>

definition slowA :: pixel where
  "slowA = pixelAt 1 0 0 \<lparr>attack = 0, defense = 0, speed = 0, hp = 3\<rparr>"

definition slowD :: pixel where
  "slowD = pixelAt 2 1 0 \<lparr>attack = 0, defense = 0, speed = 0, hp = 3\<rparr>"

text \<open>The cell a row has at a column: \<^verbatim>\<open>undefined\<close> beyond its end.\<close>

definition rowGet :: "cell list \<Rightarrow> nat \<Rightarrow> cell" where
  "rowGet r x = (if x < length r then r ! x else None)"

text \<open>
  A candidate offset that the loop of \<^verbatim>\<open>createOffspring\<close> passes over: its target is
  outside the grid, or the cell there is tested true.
\<close>

definition codeBlocked :: "world \<Rightarrow> pixel \<Rightarrow> int \<times> int \<Rightarrow> bool" where
  "codeBlocked s parent off =
     (let nx = int (px parent) + fst off; ny = int (py parent) + snd off
      in nx < 0 \<or> ny < 0 \<or> nx \<ge> int gridSize \<or> ny \<ge> int gridSize \<or>
         (case boardGet (board s) (nat ny) (nat nx) of Inl e \<Rightarrow> False | Inr c \<Rightarrow> truthy c))"

text \<open>
  What \<^verbatim>\<open>createOffspring\<close> may do to the state: nothing, or take the next id for a
  child, write that id to a cell inside the grid that was tested false, and register
  the child under it.
\<close>

definition offspringFrame :: "world \<Rightarrow> world \<Rightarrow> bool" where
  "offspringFrame s s' =
     (s' = s \<or>
      (\<exists>child c. px child < gridSize \<and> py child < gridSize \<and> py child < length (board s) \<and>
         boardGet (board s) (py child) (px child) = Inr c \<and> \<not> truthy c \<and>
         pid child = pixelIdCounter s \<and>
         s' = s\<lparr>pixelIdCounter := pixelIdCounter s + 1,
                board := (board s)[py child := rowSet (board s ! py child) (px child)
                                                (Some (pixelIdCounter s))],
                pixels := AList.update (pixelIdCounter s) child (pixels s)\<rparr>))"

text \<open>
  The two objects as the duel loop leaves them: the winner is the attacker if it has hit
  points left, otherwise the defender, as \<^verbatim>\<open>resolveCombat\<close> chooses; the loser is the
  other one.
\<close>

definition duelWinner :: "pixel \<Rightarrow> pixel \<Rightarrow> pixel" where
  "duelWinner attacker defender =
     (case duel attacker defender of (a', d', turns) \<Rightarrow> if 0 < php a' then a' else d')"

definition duelLoser :: "pixel \<Rightarrow> pixel \<Rightarrow> pixel" where
  "duelLoser attacker defender =
     (case duel attacker defender of (a', d', turns) \<Rightarrow> if 0 < php a' then d' else a')"

text \<open>
  The state \<^verbatim>\<open>resolveCombat\<close> hands to \<^verbatim>\<open>createOffspring\<close> when the loser has no hit
  points and its row is on the board: the hit points written, the combat logged, the
  loser's cell cleared and its entry deleted, the winner healed.
\<close>

definition settled :: "pixel \<Rightarrow> pixel \<Rightarrow> world \<Rightarrow> world" where
  "settled attacker defender s =
     (let winner = duelWinner attacker defender; loser = duelLoser attacker defender
      in logCombat winner loser s
           \<lparr>board := (board s)[py loser := rowSet (board s ! py loser) (px loser) None],
            pixels := objWrite (pid winner) (\<lambda>p. p\<lparr>php := maxHp winner\<rparr>)
                        (AList.delete (pid loser)
                          (objWrite (pid defender) (\<lambda>p. p\<lparr>php := php (fst (snd (duel attacker defender)))\<rparr>)
                            (objWrite (pid attacker) (\<lambda>p. p\<lparr>php := php (fst (duel attacker defender))\<rparr>)
                               (pixels s))))\<rparr>)"

text \<open>
  The board of \<^verbatim>\<open>Array.from({ length: gridSize }, () => Array(gridSize).fill(null))\<close>.
\<close>

definition emptyBoard :: "cell list list" where
  "emptyBoard = replicate gridSize (replicate gridSize None)"

text \<open>
  A state with \<open>slowA\<close> at \<open>(0, 0)\<close> and \<open>slowD\<close> at \<open>(1, 0)\<close>, and a random
  sequence that alternates between 0 and 1/2.
\<close>

definition duelWorld :: world where
  "duelWorld =
     \<lparr>board = emptyBoard[0 := (replicate gridSize None)[0 := Some 1, 1 := Some 2]],
      pixels = [(1, slowA), (2, slowD)], pixelIdCounter = 3, combatLogs = []\<rparr>"

definition rndAlternate :: rng where
  "rndAlternate = (\<lambda>i. if even i then 0 else 1 / 2)"

text \<open>
  Occupancy consistency of a state. Every registry entry is stored under the id of its
  pixel, and the cell the pixel records holds that id; no id is registered twice; and
  every id that a cell of the board holds is registered with a pixel that records that
  very cell. So an id is in no cell but the recorded one, and an id that is not
  registered is in no cell.
\<close>

definition cellConsistent :: "world \<Rightarrow> nat \<Rightarrow> nat \<Rightarrow> bool" where
  "cellConsistent s y x =
     (case rowGet (board s ! y) x of
        None \<Rightarrow> True
      | Some i \<Rightarrow> (case map_of (pixels s) i of
                     None \<Rightarrow> False
                   | Some p \<Rightarrow> px p = x \<and> py p = y))"

definition occupancyConsistent :: "world \<Rightarrow> bool" where
  "occupancyConsistent s =
     (list_all (\<lambda>(i, p). pid p = i \<and> boardGet (board s) (py p) (px p) = Inr (Some i)) (pixels s) \<and>
      distinct (map fst (pixels s)) \<and>
      list_all (\<lambda>y. list_all (\<lambda>x. cellConsistent s y x) [0..<length (board s ! y)])
        [0..<length (board s)])"


text \<open>The target cell \<open>(nx, ny)\<close> of a sub-step: the drawn direction, clamped.\<close>

definition stepTarget :: "rng \<Rightarrow> nat \<Rightarrow> pixel \<Rightarrow> nat \<times> nat" where
  "stepTarget rnd k pixel =
     (let (dx, dy) = directions ! randomIndex rnd k (length directions)
      in (nat (clamp (int (px pixel) + dx) 0 (int gridSize - 1)),
          nat (clamp (int (py pixel) + dy) 0 (int gridSize - 1))))"

text \<open>
  Two random sequences: every draw 0; and every draw 0 but the one at cursor 13, which
  is 1/2.
\<close>

definition rndZero :: rng where
  "rndZero = (\<lambda>i. 0)"

definition rndClash :: rng where
  "rndClash = (\<lambda>i. if i = 13 then 1 / 2 else 0)"

text \<open>
  The state before seeding, and the states after one and after two pixels with the
  genes \<open>plainGenes\<close> were seeded at \<open>(0, 0)\<close>.
\<close>

definition emptyWorld :: world where
  "emptyWorld = \<lparr>board = emptyBoard, pixels = [], pixelIdCounter = 0, combatLogs = []\<rparr>"

definition plainGenes :: genes where
  "plainGenes = \<lparr>attack = 0, defense = 0, speed = 0, hp = 1\<rparr>"

definition seededWorld :: world where
  "seededWorld =
     \<lparr>board = (Some 0 # replicate 49 None) # replicate 49 (replicate 50 None),
      pixels = [(0, pixelAt 0 0 0 plainGenes)], pixelIdCounter = 1, combatLogs = []\<rparr>"

definition overlaidWorld :: world where
  "overlaidWorld =
     \<lparr>board = (Some 1 # replicate 49 None) # replicate 49 (replicate 50 None),
      pixels = [(0, pixelAt 0 0 0 plainGenes), (1, pixelAt 1 0 0 plainGenes)],
      pixelIdCounter = 2, combatLogs = []\<rparr>"

text \<open>
  A state with the pixel of id 0 at \<open>(1, 0)\<close> and the pixel of id 1 at \<open>(0, 0)\<close>, of
  the same genes; the state after the pixel of id 1 moved to \<open>(1, 0)\<close>; and the state
  after the pixel of id 0 then moved to \<open>(2, 0)\<close>.
\<close>

definition zeroZ :: pixel where
  "zeroZ = pixelAt 0 1 0 plainGenes"

definition zeroM :: pixel where
  "zeroM = pixelAt 1 0 0 plainGenes"

definition zeroWorld :: world where
  "zeroWorld =
     \<lparr>board = (Some 1 # Some 0 # replicate 48 None) # replicate 49 (replicate 50 None),
      pixels = [(0, zeroZ), (1, zeroM)], pixelIdCounter = 2, combatLogs = []\<rparr>"

definition zeroMoved :: world where
  "zeroMoved =
     \<lparr>board = (None # Some 1 # replicate 48 None) # replicate 49 (replicate 50 None),
      pixels = [(0, zeroZ), (1, zeroM\<lparr>px := 1\<rparr>)], pixelIdCounter = 2, combatLogs = []\<rparr>"

definition zeroAfter :: world where
  "zeroAfter =
     \<lparr>board = (None # None # Some 0 # replicate 47 None) # replicate 49 (replicate 50 None),
      pixels = [(0, zeroZ\<lparr>px := 2\<rparr>), (1, zeroM\<lparr>px := 1\<rparr>)], pixelIdCounter = 2,
      combatLogs = []\<rparr>"

text \<open>
  A state with no pixel of id 0: the attacker \<open>clashP\<close> (id 2, one attack gene) at
  \<open>(0, 0)\<close> and the defender \<open>clashQ\<close> (id 1) at \<open>(1, 0)\<close>, the id counter at 3. In
  the state after, \<open>clashP\<close> has moved to \<open>(1, 0)\<close> and its child \<open>clashChild\<close>
  (id 3) is registered at \<open>(1, 0)\<close> too.
\<close>

definition clashQ :: pixel where
  "clashQ = pixelAt 1 1 0 \<lparr>attack = 0, defense = 0, speed = 0, hp = 1\<rparr>"

definition clashP :: pixel where
  "clashP = pixelAt 2 0 0 \<lparr>attack = 1, defense = 0, speed = 0, hp = 1\<rparr>"

definition clashChild :: pixel where
  "clashChild = pixelAt 3 1 0 \<lparr>attack = 1, defense = 0, speed = 0, hp = 1\<rparr>"

definition clashWorld :: world where
  "clashWorld =
     \<lparr>board = (Some 2 # Some 1 # replicate 48 None) # replicate 49 (replicate 50 None),
      pixels = [(1, clashQ), (2, clashP)], pixelIdCounter = 3, combatLogs = []\<rparr>"

definition clashAfter :: world where
  "clashAfter =
     \<lparr>board = (None # Some 2 # replicate 48 None) # replicate 49 (replicate 50 None),
      pixels = [(2, clashP\<lparr>px := 1\<rparr>), (3, clashChild)], pixelIdCounter = 4,
      combatLogs = [''AH kill H'']\<rparr>"

text \<open>
  A state in which the parent \<open>crowdP\<close> (id 1) sits in the corner \<open>(0, 0)\<close> and each
  of the five candidate cells inside the grid holds a pixel; the one at \<open>(1, 0)\<close> has
  id 0. In the state after, the child \<open>crowdChild\<close> (id 6) is at \<open>(1, 0)\<close>.
\<close>

definition crowdP :: pixel where
  "crowdP = pixelAt 1 0 0 plainGenes"


definition crowdWorld :: world where
  "crowdWorld =
     \<lparr>board = (Some 1 # Some 0 # Some 2 # replicate 47 None) #
               (Some 3 # Some 4 # replicate 48 None) #
               (Some 5 # replicate 49 None) # replicate 47 (replicate 50 None),
      pixels = [(0, pixelAt 0 1 0 plainGenes), (1, crowdP), (2, pixelAt 2 2 0 plainGenes),
                (3, pixelAt 3 0 1 plainGenes), (4, pixelAt 4 1 1 plainGenes),
                (5, pixelAt 5 0 2 plainGenes)],
      pixelIdCounter = 6, combatLogs = []\<rparr>"


text \<open>
  The genes \<^verbatim>\<open>randomGenes(8)\<close> returns when every draw is 0, and the state
  \<^verbatim>\<open>initialisePopulations\<close> then leaves: all 600 pixels are built for the cell
  \<open>(0, 0)\<close>, and the first two of them are registered.
\<close>

definition heavyGenes :: genes where
  "heavyGenes = \<lparr>attack = 8, defense = 0, speed = 0, hp = 1\<rparr>"

definition seededAll :: world where
  "seededAll =
     \<lparr>board = (Some 1 # replicate 49 None) # replicate 49 (replicate 50 None),
      pixels = [(0, pixelAt 0 0 0 heavyGenes), (1, pixelAt 1 0 0 heavyGenes)],
      pixelIdCounter = 600, combatLogs = []\<rparr>"

text \<open>Two pixels of which the defender is the faster and kills with its first hit.\<close>

definition quickA :: pixel where
  "quickA = pixelAt 1 0 0 \<lparr>attack = 0, defense = 0, speed = 0, hp = 2\<rparr>"

definition quickD :: pixel where
  "quickD = pixelAt 2 1 0 \<lparr>attack = 3, defense = 0, speed = 1, hp = 1\<rparr>"


text \<open>
  A state like \<open>crowdWorld\<close> with no pixel of id 0: the parent \<open>packedP\<close> (id 1) in
  the corner \<open>(0, 0)\<close>, the five candidate cells inside the grid held by the pixels of
  ids 2 to 6.
\<close>

definition packedP :: pixel where
  "packedP = pixelAt 1 0 0 plainGenes"

definition packedWorld :: world where
  "packedWorld =
     \<lparr>board = (Some 1 # Some 2 # Some 3 # replicate 47 None) #
               (Some 4 # Some 5 # replicate 48 None) #
               (Some 6 # replicate 49 None) # replicate 47 (replicate 50 None),
      pixels = [(1, packedP), (2, pixelAt 2 1 0 plainGenes), (3, pixelAt 3 2 0 plainGenes),
                (4, pixelAt 4 0 1 plainGenes), (5, pixelAt 5 1 1 plainGenes),
                (6, pixelAt 6 0 2 plainGenes)],
      pixelIdCounter = 7, combatLogs = []\<rparr>"

section \<open>Properties of gene vectors\<close>

lemma genesToCode_unfold:
  "genesToCode g = replicate (attack g) CHR ''A'' @ replicate (defense g) CHR ''D'' @
                   replicate (speed g) CHR ''S'' @ replicate (hp g) CHR ''H''"
  by (simp add: genesToCode_def GENE_TYPES_def)

lemma count_list_replicate_eq: "count_list (replicate n c) d = (if c = d then n else 0)"
  by (induction n) auto

lemma genesToCode_counts:
  "count_list (genesToCode g) CHR ''A'' = attack g"
  "count_list (genesToCode g) CHR ''D'' = defense g"
  "count_list (genesToCode g) CHR ''S'' = speed g"
  "count_list (genesToCode g) CHR ''H'' = hp g"
  by (simp_all add: genesToCode_unfold count_list_replicate_eq)

text \<open>
  C10. \<^verbatim>\<open>genesToCode\<close> is injective: two gene vectors have the same code string if
  and only if they have the same count in each of the four categories, so comparing
  codes compares gene vectors exactly.
\<close>

theorem genesToCode_injective:
  "genesToCode g1 = genesToCode g2 \<longleftrightarrow> (g1 :: genes) = g2"
proof
  assume eq: "genesToCode g1 = genesToCode g2"
  have "attack g1 = attack g2" "defense g1 = defense g2" "speed g1 = speed g2" "hp g1 = hp g2"
    using genesToCode_counts [of g1] genesToCode_counts [of g2] eq by simp_all
  then show "g1 = g2" by simp
next
  assume "g1 = g2" then show "genesToCode g1 = genesToCode g2" by simp
qed

lemma randomIndex_less: "0 < n \<Longrightarrow> randomIndex rnd k n < n"
proof -
  assume n: "0 < n"
  have "random rnd k * real n < real n"
    using n frac_lt_1 [of "rnd k"] by (simp add: random_def)
  moreover have "0 \<le> random rnd k * real n"
    using frac_ge_0 [of "rnd k"] by (simp add: random_def)
  ultimately show ?thesis
    unfolding randomIndex_def by (simp add: floor_less_iff nat_less_iff)
qed

lemma geneTotal_unfold: "geneTotal g = attack g + defense g + speed g + hp g"
  by (simp add: geneTotal_def GENE_TYPES_def)

lemma geneTotal_geneInc: "geneTotal (geneInc g t) = geneTotal g + 1"
  by (cases t) (simp_all add: geneTotal_unfold)

lemma distributeGenes_cursor: "snd (distributeGenes rnd k n g) = k + n"
  by (induction n arbitrary: k g) simp_all

lemma distributeGenes_total: "geneTotal (fst (distributeGenes rnd k n g)) = geneTotal g + n"
  by (induction n arbitrary: k g) (simp_all add: geneTotal_geneInc)

text \<open>
  C7. For every total and every random sequence, \<^verbatim>\<open>randomGenes(total)\<close> returns a
  gene vector with \<open>hp \<ge> 1\<close>. The loop hands out exactly \<open>total\<close> units. If it gave
  \<open>hp\<close> at least one unit, the result is what the loop built and its category sum is
  \<open>total\<close>; if it gave \<open>hp\<close> none, \<open>hp\<close> is set to 1, the other three categories
  keep their counts, and the category sum is \<open>total + 1\<close>.
\<close>

theorem randomGenes_total:
  "(let g0 = fst (distributeGenes rnd k n \<lparr>attack = 0, defense = 0, speed = 0, hp = 0\<rparr>);
        g = fst (randomGenes rnd k n)
    in hp g \<ge> 1 \<and> geneTotal g0 = n \<and>
       attack g = attack g0 \<and> defense g = defense g0 \<and> speed g = speed g0 \<and>
       (if hp g0 = 0 then hp g = 1 \<and> geneTotal g = n + 1 else g = g0 \<and> geneTotal g = n))"
proof -
  define g0 where "g0 = fst (distributeGenes rnd k n \<lparr>attack = 0, defense = 0, speed = 0, hp = 0\<rparr>)"
  have "geneTotal g0 = geneTotal \<lparr>attack = 0, defense = 0, speed = 0, hp = 0\<rparr> + n"
    unfolding g0_def by (rule distributeGenes_total)
  moreover have "geneTotal \<lparr>attack = 0, defense = 0, speed = 0, hp = 0\<rparr> = 0"
    by (simp add: geneTotal_unfold)
  ultimately have t0: "geneTotal g0 = n"
    by simp
  have g: "fst (randomGenes rnd k n) = (if hp g0 = 0 then g0\<lparr>hp := 1\<rparr> else g0)"
    unfolding g0_def randomGenes_def by (simp add: split_beta)
  show ?thesis
    using t0 unfolding g g0_def [symmetric] Let_def
    by (auto simp: geneTotal_unfold)
qed

theorem randomGenes_total_witness:
  "fst (randomGenes (\<lambda>i. 0) 0 2) = \<lparr>attack = 2, defense = 0, speed = 0, hp = 1\<rparr> \<and>
   geneTotal (fst (randomGenes (\<lambda>i. 0) 0 2)) = 2 + 1"
  using randomGenes_total [of "\<lambda>i. 0" 0 2]
  by (simp add: randomGenes_def randomIndex_def random_def GENE_TYPES_def numeral_2_eq_2 geneTotal_unfold)

section \<open>Properties of mutation\<close>

text \<open>
  The destination loop returns at the first draw that differs from the source
  category, and runs forever exactly when there is no such draw.
\<close>

lemma pickTo_unfold:
  "pickTo rnd k f = (if geneDraw rnd k = f then pickTo rnd (Suc k) f else Some (geneDraw rnd k, Suc k))"
  by (subst pickTo.simps) (simp add: geneDraw_def GENE_TYPES_def)

lemma pickTo_Some:
  "geneDraw rnd (k + j) \<noteq> f \<Longrightarrow> (\<forall>i<j. geneDraw rnd (k + i) = f) \<Longrightarrow>
   pickTo rnd k f = Some (geneDraw rnd (k + j), k + j + 1)"
proof (induction j arbitrary: k)
  case 0
  then show ?case by (subst pickTo_unfold) simp
next
  case (Suc j)
  have here: "geneDraw rnd k = f"
    using Suc.prems(2) [rule_format, of 0] by simp
  have "pickTo rnd (Suc k) f = Some (geneDraw rnd (Suc k + j), Suc k + j + 1)"
  proof (rule Suc.IH)
    show "geneDraw rnd (Suc k + j) \<noteq> f" using Suc.prems(1) by simp
    show "\<forall>i<j. geneDraw rnd (Suc k + i) = f"
      using Suc.prems(2) [rule_format, of "Suc i" for i] by simp
  qed
  then show ?case
    by (subst pickTo_unfold) (simp add: here)
qed

lemma pickTo_result:
  assumes "pickTo rnd k f = Some y"
  shows "fst y \<noteq> f \<and> (\<exists>j. fst y = geneDraw rnd (k + j) \<and> snd y = k + j + 1)"
proof (rule pickTo.raw_induct
    [where P = "\<lambda>rnd k f y. fst y \<noteq> f \<and> (\<exists>j. fst y = geneDraw rnd (k + j) \<and> snd y = k + j + 1)",
     OF _ assms])
  fix loop :: "rng \<Rightarrow> nat \<Rightarrow> geneType \<Rightarrow> (geneType \<times> nat) option"
  fix rnd k f y
  assume IH: "\<And>rnd k f y. loop rnd k f = Some y \<Longrightarrow>
      fst y \<noteq> f \<and> (\<exists>j. fst y = geneDraw rnd (k + j) \<and> snd y = k + j + 1)"
  assume body: "(let to_t = GENE_TYPES ! randomIndex rnd k (length GENE_TYPES)
      in if to_t = f \<and> 1 < length GENE_TYPES then loop rnd (Suc k) f
         else Some (to_t, Suc k)) = Some y"
  show "fst y \<noteq> f \<and> (\<exists>j. fst y = geneDraw rnd (k + j) \<and> snd y = k + j + 1)"
  proof (cases "geneDraw rnd k = f")
    case True
    then have "loop rnd (Suc k) f = Some y"
      using body by (simp add: geneDraw_def GENE_TYPES_def)
    from IH [OF this] obtain j
      where "fst y \<noteq> f" "fst y = geneDraw rnd (Suc k + j)" "snd y = Suc k + j + 1"
      by blast
    then show ?thesis by (intro conjI exI [of _ "Suc j"]) simp_all
  next
    case False
    then have "y = (geneDraw rnd k, Suc k)"
      using body by (simp add: geneDraw_def GENE_TYPES_def)
    with False show ?thesis by (intro conjI exI [of _ 0]) simp_all
  qed
qed

lemma pickTo_None_iff:
  "pickTo rnd k f = None \<longleftrightarrow> (\<forall>j. geneDraw rnd (k + j) = f)"
proof
  assume none: "pickTo rnd k f = None"
  show "\<forall>j. geneDraw rnd (k + j) = f"
  proof (rule ccontr)
    assume "\<not> (\<forall>j. geneDraw rnd (k + j) = f)"
    then obtain j where j: "geneDraw rnd (k + j) \<noteq> f" by blast
    define m where "m = (LEAST j. geneDraw rnd (k + j) \<noteq> f)"
    have "geneDraw rnd (k + m) \<noteq> f" unfolding m_def using j by (rule LeastI)
    moreover have "\<forall>i<m. geneDraw rnd (k + i) = f"
      unfolding m_def using not_less_Least by blast
    ultimately show False using pickTo_Some none by fastforce
  qed
next
  assume all: "\<forall>j. geneDraw rnd (k + j) = f"
  show "pickTo rnd k f = None"
  proof (cases "pickTo rnd k f")
    case (Some y)
    from pickTo_result [OF this] all show ?thesis by auto
  qed simp
qed


lemma geneTotal_move:
  "0 < geneGet g f \<Longrightarrow> geneTotal (geneInc (geneDec g f) t) = geneTotal g"
  by (cases f; cases t) (simp_all add: geneTotal_unfold)

lemma hp_move:
  "(if f = Hp then 1 else 0) < geneGet g f \<Longrightarrow> 1 \<le> hp g \<Longrightarrow> 1 \<le> hp (geneInc (geneDec g f) t)"
  by (cases f; cases t) simp_all

text \<open>
  C5. For every gene vector with \<open>hp \<ge> 1\<close> and every random sequence, the gene
  vector \<^verbatim>\<open>mutateGenes\<close> returns has the category sum of its input and \<open>hp \<ge> 1\<close>.
  The only run without a result is the one in which the destination loop never ends:
  every draw from the third on is the same category.
\<close>

theorem mutateGenes_conserves:
  assumes "1 \<le> hp g"
  shows "case mutateGenes rnd k g of
           Inr (g', k') \<Rightarrow> geneTotal g' = geneTotal g \<and> 1 \<le> hp g'
         | Inl e \<Rightarrow> e = Diverges \<and> (\<exists>f. \<forall>j. geneDraw rnd (k + 2 + j) = f)"
proof -
  define fromTypes where
    "fromTypes = filter (\<lambda>t. geneGet g t > (if t = Hp then 1 else 0)) GENE_TYPES"
  define f where "f = fromTypes ! randomIndex rnd (k + 1) (length fromTypes)"
  show ?thesis
  proof (cases "random rnd k < mutationChance \<and> 0 < length fromTypes")
    case False
    then have "mutateGenes rnd k g = Inr (g, k + 1)"
      unfolding mutateGenes_def fromTypes_def by (auto simp: Let_def)
    with assms show ?thesis by simp
  next
    case True
    then have "f \<in> set fromTypes"
      unfolding f_def by (simp add: randomIndex_less)
    then have elig: "(if f = Hp then 1 else 0) < geneGet g f"
      unfolding fromTypes_def by simp
    have run: "mutateGenes rnd k g =
        (case pickTo rnd (k + 2) f of None \<Rightarrow> Inl Diverges
         | Some (to_t, k') \<Rightarrow> Inr (geneInc (geneDec g f) to_t, k'))"
      unfolding mutateGenes_def Let_def fromTypes_def [symmetric] f_def [symmetric]
      using True by (simp only: if_True)
    show ?thesis
    proof (cases "pickTo rnd (k + 2) f")
      case None
      then have "\<forall>j. geneDraw rnd (k + 2 + j) = f"
        by (simp add: pickTo_None_iff)
      with None run show ?thesis by auto
    next
      case (Some y)
      obtain to_t k' where y: "y = (to_t, k')" by (cases y)
      have "0 < geneGet g f" using elig by (simp split: if_splits)
      then have "geneTotal (geneInc (geneDec g f) to_t) = geneTotal g"
        by (rule geneTotal_move)
      moreover have "1 \<le> hp (geneInc (geneDec g f) to_t)"
        using elig assms by (rule hp_move)
      ultimately show ?thesis using Some run y by simp
    qed
  qed
qed


theorem mutateGenes_conserves_witness:
  "mutateGenes rndMutate 0 \<lparr>attack = 1, defense = 0, speed = 0, hp = 1\<rparr> =
     Inr (\<lparr>attack = 0, defense = 0, speed = 1, hp = 1\<rparr>, 3) \<and>
   geneTotal \<lparr>attack = 0, defense = 0, speed = 1, hp = 1\<rparr> =
     geneTotal \<lparr>attack = 1, defense = 0, speed = 0, hp = 1\<rparr>"
proof -
  have draw: "geneDraw rndMutate 2 = Speed"
    by (simp add: geneDraw_def randomIndex_def random_def rndMutate_def GENE_TYPES_def frac_eq)
  have "pickTo rndMutate 2 Attack = Some (Speed, 3)"
    using pickTo_Some [of rndMutate 2 0 Attack] draw by simp
  then have "mutateGenes rndMutate 0 \<lparr>attack = 1, defense = 0, speed = 0, hp = 1\<rparr> =
     Inr (\<lparr>attack = 0, defense = 0, speed = 1, hp = 1\<rparr>, 3)"
    by (simp add: mutateGenes_def random_def randomIndex_def rndMutate_def mutationChance_def
        GENE_TYPES_def del: add_2_eq_Suc add_2_eq_Suc')
  then show ?thesis
    using mutateGenes_conserves [of "\<lparr>attack = 1, defense = 0, speed = 0, hp = 1\<rparr>" rndMutate 0]
    by simp
qed

section \<open>Properties of the duel\<close>

declare duelLoop.simps [simp del]

lemma damageOf_pos: "1 \<le> damageOf t opp"
  by (simp add: damageOf_def)

lemma duelLoop_done:
  "\<not> (0 < php a \<and> 0 < php d) \<Longrightarrow> duelLoop a d t ts = (a, d, ts)"
  by (subst duelLoop.simps) (simp only: if_False)

lemma duelLoop_attacker_turn:
  "0 < php a \<Longrightarrow> 0 < php d \<Longrightarrow>
   duelLoop a d True ts =
     (if php d - damageOf a d \<le> 0
      then (a, d\<lparr>php := php d - damageOf a d\<rparr>, ts @ [(AttackerSide, damageOf a d)])
      else duelLoop a (d\<lparr>php := php d - damageOf a d\<rparr>) False
             (ts @ [(AttackerSide, damageOf a d)]))"
  by (subst duelLoop.simps) (simp add: Let_def damageOf_def)

lemma duelLoop_defender_turn:
  "0 < php a \<Longrightarrow> 0 < php d \<Longrightarrow>
   duelLoop a d False ts =
     (if php a - damageOf d a \<le> 0
      then (a\<lparr>php := php a - damageOf d a\<rparr>, d, ts @ [(DefenderSide, damageOf d a)])
      else duelLoop (a\<lparr>php := php a - damageOf d a\<rparr>) d True
             (ts @ [(DefenderSide, damageOf d a)]))"
  by (subst duelLoop.simps) (simp add: Let_def damageOf_def)

lemma duelOutcome_after_attacker:
  assumes "duelOutcome a (d\<lparr>php := php d - dmg\<rparr>) False (ts @ [e]) r" and "1 \<le> dmg"
  shows "duelOutcome a d True ts r"
proof -
  obtain a' d' ts' where r: "r = (a', d', ts')" by (cases r)
  from assms(1) obtain ext where
    a': "a' = a\<lparr>php := php a'\<rparr>" and d': "d' = d\<lparr>php := php d - dmg, php := php d'\<rparr>" and
    ts': "ts' = (ts @ [e]) @ ext" and
    out: "(0 < php a' \<and> php d' \<le> 0 \<and> int (length ext) \<le> 2 * (php d - dmg)) \<or>
          (php a' \<le> 0 \<and> 0 < php d' \<and> int (length ext) + 1 \<le> 2 * php a)"
    unfolding r duelOutcome_def by auto
  have "d' = d\<lparr>php := php d'\<rparr>" using d' by simp
  moreover have "ts' = ts @ (e # ext)" using ts' by simp
  moreover have "(0 < php a' \<and> php d' \<le> 0 \<and> int (length (e # ext)) + 1 \<le> 2 * php d) \<or>
          (php a' \<le> 0 \<and> 0 < php d' \<and> int (length (e # ext)) \<le> 2 * php a)"
    using out assms(2) by auto
  ultimately show ?thesis
    unfolding r duelOutcome_def using a' by (simp del: append_Cons)
qed

lemma duelOutcome_after_defender:
  assumes "duelOutcome (a\<lparr>php := php a - dmg\<rparr>) d True (ts @ [e]) r" and "1 \<le> dmg"
  shows "duelOutcome a d False ts r"
proof -
  obtain a' d' ts' where r: "r = (a', d', ts')" by (cases r)
  from assms(1) obtain ext where
    a': "a' = a\<lparr>php := php a - dmg, php := php a'\<rparr>" and d': "d' = d\<lparr>php := php d'\<rparr>" and
    ts': "ts' = (ts @ [e]) @ ext" and
    out: "(0 < php a' \<and> php d' \<le> 0 \<and> int (length ext) + 1 \<le> 2 * php d) \<or>
          (php a' \<le> 0 \<and> 0 < php d' \<and> int (length ext) \<le> 2 * (php a - dmg))"
    unfolding r duelOutcome_def by auto
  have "a' = a\<lparr>php := php a'\<rparr>" using a' by simp
  moreover have "ts' = ts @ (e # ext)" using ts' by simp
  moreover have "(0 < php a' \<and> php d' \<le> 0 \<and> int (length (e # ext)) \<le> 2 * php d) \<or>
          (php a' \<le> 0 \<and> 0 < php d' \<and> int (length (e # ext)) + 1 \<le> 2 * php a)"
    using out assms(2) by auto
  ultimately show ?thesis
    unfolding r duelOutcome_def using d' by (simp del: append_Cons)
qed

lemma duelLoop_outcome:
  "0 < php a \<Longrightarrow> 0 < php d \<Longrightarrow> duelOutcome a d t ts (duelLoop a d t ts)"
proof (induction "nat (php a) + nat (php d)" arbitrary: a d t ts rule: less_induct)
  case less
  note pos = less.prems
  show ?case
  proof (cases t)
    case True
    let ?dmg = "damageOf a d"
    let ?d = "d\<lparr>php := php d - ?dmg\<rparr>"
    have dmg: "1 \<le> ?dmg" by (rule damageOf_pos)
    have "duelOutcome a d True ts (duelLoop a d True ts)"
    proof (cases "php d - ?dmg \<le> 0")
      case dead: True
      have "duelLoop a d True ts = (a, ?d, ts @ [(AttackerSide, ?dmg)])"
        using pos dead by (simp add: duelLoop_attacker_turn)
      then show ?thesis
        using pos dead by (simp add: duelOutcome_def)
    next
      case alive: False
      have run: "duelLoop a d True ts = duelLoop a ?d False (ts @ [(AttackerSide, ?dmg)])"
        using pos alive by (simp add: duelLoop_attacker_turn)
      have "duelOutcome a ?d False (ts @ [(AttackerSide, ?dmg)])
              (duelLoop a ?d False (ts @ [(AttackerSide, ?dmg)]))"
        using pos alive dmg by (intro less.hyps) auto
      then show ?thesis
        unfolding run using dmg by (rule duelOutcome_after_attacker)
    qed
    with True show ?thesis by simp
  next
    case False
    let ?dmg = "damageOf d a"
    let ?a = "a\<lparr>php := php a - ?dmg\<rparr>"
    have dmg: "1 \<le> ?dmg" by (rule damageOf_pos)
    have "duelOutcome a d False ts (duelLoop a d False ts)"
    proof (cases "php a - ?dmg \<le> 0")
      case dead: True
      have "duelLoop a d False ts = (?a, d, ts @ [(DefenderSide, ?dmg)])"
        using pos dead by (simp add: duelLoop_defender_turn)
      then show ?thesis
        using pos dead by (simp add: duelOutcome_def)
    next
      case alive: False
      have run: "duelLoop a d False ts = duelLoop ?a d True (ts @ [(DefenderSide, ?dmg)])"
        using pos alive by (simp add: duelLoop_defender_turn)
      have "duelOutcome ?a d True (ts @ [(DefenderSide, ?dmg)])
              (duelLoop ?a d True (ts @ [(DefenderSide, ?dmg)]))"
        using pos alive dmg by (intro less.hyps) auto
      then show ?thesis
        unfolding run using dmg by (rule duelOutcome_after_defender)
    qed
    with False show ?thesis by simp
  qed
qed


lemma duelLoop_turns_extend: "\<exists>ext. snd (snd (duelLoop a d t ts)) = ts @ ext"
proof (cases "0 < php a \<and> 0 < php d")
  case True
  then have "duelOutcome a d t ts (duelLoop a d t ts)" by (simp add: duelLoop_outcome)
  then show ?thesis unfolding duelOutcome_def by (auto split: prod.splits)
next
  case False
  then show ?thesis by (simp add: duelLoop_done)
qed

lemma duelLoop_first_attacker:
  assumes "0 < php a" "0 < php d"
  shows "\<exists>ext. snd (snd (duelLoop a d True [])) = (AttackerSide, damageOf a d) # ext"
proof (cases "php d - damageOf a d \<le> 0")
  case True
  then show ?thesis using assms by (simp add: duelLoop_attacker_turn)
next
  case False
  then show ?thesis
    using assms duelLoop_turns_extend [of a "d\<lparr>php := php d - damageOf a d\<rparr>" False "[(AttackerSide, damageOf a d)]"]
    by (simp add: duelLoop_attacker_turn)
qed

lemma duelLoop_first_defender:
  assumes "0 < php a" "0 < php d"
  shows "\<exists>ext. snd (snd (duelLoop a d False [])) = (DefenderSide, damageOf d a) # ext"
proof (cases "php a - damageOf d a \<le> 0")
  case True
  then show ?thesis using assms by (simp add: duelLoop_defender_turn)
next
  case False
  then show ?thesis
    using assms duelLoop_turns_extend [of "a\<lparr>php := php a - damageOf d a\<rparr>" d True "[(DefenderSide, damageOf d a)]"]
    by (simp add: duelLoop_defender_turn)
qed

text \<open>The loop never raises hit points.\<close>

lemma duelLoop_hp_le:
  "php (fst (duelLoop a d t ts)) \<le> php a \<and> php (fst (snd (duelLoop a d t ts))) \<le> php d"
proof (induction "nat (php a) + nat (php d)" arbitrary: a d t ts rule: less_induct)
  case less
  show ?case
  proof (cases "0 < php a \<and> 0 < php d")
    case False
    then show ?thesis by (simp add: duelLoop_done)
  next
    case alive: True
    show ?thesis
    proof (cases t)
      case True
      let ?dmg = "damageOf a d"
      let ?d = "d\<lparr>php := php d - ?dmg\<rparr>"
      have dmg: "1 \<le> ?dmg" by (rule damageOf_pos)
      show ?thesis
      proof (cases "php d - ?dmg \<le> 0")
        case dead: True
        then show ?thesis using alive dmg True by (simp add: duelLoop_attacker_turn)
      next
        case False
        have "php (fst (duelLoop a ?d False (ts @ [(AttackerSide, ?dmg)]))) \<le> php a \<and>
              php (fst (snd (duelLoop a ?d False (ts @ [(AttackerSide, ?dmg)])))) \<le> php ?d"
          using alive False dmg by (intro less.hyps) auto
        then show ?thesis using alive False dmg True by (simp add: duelLoop_attacker_turn)
      qed
    next
      case notT: False
      let ?dmg = "damageOf d a"
      let ?a = "a\<lparr>php := php a - ?dmg\<rparr>"
      have dmg: "1 \<le> ?dmg" by (rule damageOf_pos)
      show ?thesis
      proof (cases "php a - ?dmg \<le> 0")
        case dead: True
        then show ?thesis using alive dmg notT by (simp add: duelLoop_defender_turn)
      next
        case False
        have "php (fst (duelLoop ?a d True (ts @ [(DefenderSide, ?dmg)]))) \<le> php ?a \<and>
              php (fst (snd (duelLoop ?a d True (ts @ [(DefenderSide, ?dmg)])))) \<le> php d"
          using alive False dmg by (intro less.hyps) auto
        then show ?thesis using alive False dmg notT by (simp add: duelLoop_defender_turn)
      qed
    qed
  qed
qed

text \<open>
  C8. In a duel between two pixels that both have hit points, the pixel with the
  strictly higher speed deals damage first, and the attacker (the first argument of
  \<^verbatim>\<open>resolveCombat\<close>) when the speeds are equal. The first turn takes that pixel's
  damage from the hit points of the other one and leaves its own untouched; the duel
  ends there if the other one has none left, and otherwise goes on from that state with
  the other one's turn. So the pixel hit first ends the duel with at most its starting
  hit points less that damage.
\<close>

theorem duel_first_turn:
  assumes "0 < php attacker" and "0 < php defender"
  shows "case duel attacker defender of
           (a', d', turns) \<Rightarrow>
             (if speed (genes attacker) < speed (genes defender) then
                (let damage = damageOf defender attacker;
                     hit = attacker\<lparr>php := php attacker - damage\<rparr>
                 in turns \<noteq> [] \<and> hd turns = (DefenderSide, damage) \<and>
                    php a' \<le> php attacker - damage \<and>
                    (a', d', turns) =
                      (if php hit \<le> 0 then (hit, defender, [(DefenderSide, damage)])
                       else duelLoop hit defender True [(DefenderSide, damage)]))
              else
                (let damage = damageOf attacker defender;
                     hit = defender\<lparr>php := php defender - damage\<rparr>
                 in turns \<noteq> [] \<and> hd turns = (AttackerSide, damage) \<and>
                    php d' \<le> php defender - damage \<and>
                    (a', d', turns) =
                      (if php hit \<le> 0 then (attacker, hit, [(AttackerSide, damage)])
                       else duelLoop attacker hit False [(AttackerSide, damage)])))"
proof (cases "speed (genes attacker) < speed (genes defender)")
  case True
  let ?dmg = "damageOf defender attacker"
  let ?hit = "attacker\<lparr>php := php attacker - ?dmg\<rparr>"
  have start: "duel attacker defender = duelLoop attacker defender False []"
    using True by (simp add: duel_def firstIsAttacker_def)
  have step: "duelLoop attacker defender False [] =
      (if php ?hit \<le> 0 then (?hit, defender, [(DefenderSide, ?dmg)])
       else duelLoop ?hit defender True [(DefenderSide, ?dmg)])"
    using assms by (simp add: duelLoop_defender_turn)
  have first: "\<exists>ext. snd (snd (duelLoop attacker defender False [])) = (DefenderSide, ?dmg) # ext"
    using assms by (rule duelLoop_first_defender)
  have le: "php (fst (duelLoop attacker defender False [])) \<le> php attacker - ?dmg"
  proof (cases "php ?hit \<le> 0")
    case True
    then show ?thesis unfolding step by simp
  next
    case False
    then show ?thesis
      unfolding step using duelLoop_hp_le [of ?hit defender True "[(DefenderSide, ?dmg)]"] by simp
  qed
  obtain a' d' turns where r: "duelLoop attacker defender False [] = (a', d', turns)"
    by (cases "duelLoop attacker defender False []")
  show ?thesis
    unfolding start using True first le step unfolding r by (auto simp: Let_def)
next
  case False
  let ?dmg = "damageOf attacker defender"
  let ?hit = "defender\<lparr>php := php defender - ?dmg\<rparr>"
  have start: "duel attacker defender = duelLoop attacker defender True []"
    using False by (simp add: duel_def firstIsAttacker_def)
  have step: "duelLoop attacker defender True [] =
      (if php ?hit \<le> 0 then (attacker, ?hit, [(AttackerSide, ?dmg)])
       else duelLoop attacker ?hit False [(AttackerSide, ?dmg)])"
    using assms by (simp add: duelLoop_attacker_turn)
  have first: "\<exists>ext. snd (snd (duelLoop attacker defender True [])) = (AttackerSide, ?dmg) # ext"
    using assms by (rule duelLoop_first_attacker)
  have le: "php (fst (snd (duelLoop attacker defender True []))) \<le> php defender - ?dmg"
  proof (cases "php ?hit \<le> 0")
    case True
    then show ?thesis unfolding step by simp
  next
    case False
    then show ?thesis
      unfolding step using duelLoop_hp_le [of attacker ?hit False "[(AttackerSide, ?dmg)]"] by simp
  qed
  obtain a' d' turns where r: "duelLoop attacker defender True [] = (a', d', turns)"
    by (cases "duelLoop attacker defender True []")
  show ?thesis
    unfolding start using False first le step unfolding r by (auto simp: Let_def)
qed

lemma duel_slow: "duel slowA slowD =
   (slowA\<lparr>php := 1\<rparr>, slowD\<lparr>php := 0\<rparr>,
    [(AttackerSide, 1), (DefenderSide, 1), (AttackerSide, 1), (DefenderSide, 1), (AttackerSide, 1)])"
  by (simp add: duel_def firstIsAttacker_def slowA_def slowD_def pixelAt_def duelLoop.simps Let_def)

lemma duel_quick: "duel quickA quickD = (quickA\<lparr>php := -1\<rparr>, quickD, [(DefenderSide, 3)])"
  by (simp add: duel_def firstIsAttacker_def quickA_def quickD_def pixelAt_def duelLoop.simps Let_def)

theorem duel_first_turn_witness:
  "0 < php quickA \<and> 0 < php quickD \<and> speed (genes quickA) < speed (genes quickD) \<and>
   damageOf quickD quickA = 3 \<and> php quickA = 2 \<and>
   duel quickA quickD = (quickA\<lparr>php := -1\<rparr>, quickD, [(DefenderSide, 3)])"
  using duel_first_turn [of quickA quickD]
  by (simp add: duel_quick) (simp add: quickA_def quickD_def pixelAt_def damageOf_def)

text \<open>
  C3, as stated, fails: the duel of \<open>slowA\<close> and \<open>slowD\<close> takes five turns, and
  the loser started with three hit points.
\<close>

theorem duel_turns_counterexample:
  "0 < php slowA \<and> 0 < php slowD \<and> pid slowA \<noteq> pid slowD \<and>
   (case duel slowA slowD of
      (a', d', turns) \<Rightarrow>
        0 < php a' \<and> php d' \<le> 0 \<and> php slowD = 3 \<and> length turns = 5 \<and>
        \<not> int (length turns) \<le> php slowD)"
  by (simp add: duel_slow) (simp add: slowA_def slowD_def pixelAt_def)

section \<open>Properties of the grid, the registry and reproduction\<close>

lemma rowGet_rowSet: "rowGet (rowSet r x v) x' = (if x' = x then v else rowGet r x')"
  by (auto simp: rowGet_def rowSet_def nth_append)

lemma boardGet_rowGet: "boardGet b y x = (if y < length b then Inr (rowGet (b ! y) x) else Inl TypeError)"
  by (simp add: boardGet_def rowGet_def)

lemma boardSet_Inr: "y < length b \<Longrightarrow> boardSet b y x v = Inr (b[y := rowSet (b ! y) x v])"
  by (simp add: boardSet_def)

lemma boardSet_Inl: "\<not> y < length b \<Longrightarrow> boardSet b y x v = Inl TypeError"
  by (simp add: boardSet_def)

lemma boardSet_length: "boardSet b y x v = Inr b' \<Longrightarrow> length b' = length b"
  by (auto simp: boardSet_def split: if_splits)

lemma boardGet_boardSet:
  "boardSet b y x v = Inr b' \<Longrightarrow>
   boardGet b' y' x' = (if y' = y \<and> x' = x then Inr v else boardGet b y' x')"
  by (cases "y' = y") (auto simp: boardSet_def boardGet_rowGet rowGet_rowSet split: if_splits)

lemma map_of_objWrite:
  "map_of (objWrite i f ps) j = (if j = i then map_option f (map_of ps j) else map_of ps j)"
  by (induction ps) (auto simp: objWrite_def)

lemma map_of_registry_delete: "map_of (AList.delete i ps) j = (if j = i then None else map_of ps j)"
  by (simp add: delete_conv')

lemma map_of_registry_update: "map_of (AList.update i p ps) j = (if j = i then Some p else map_of ps j)"
  by (simp add: update_conv')

lemma placePixel_occupied:
  "boardGet (board s) (py p) (px p) = Inr c \<Longrightarrow> truthy c \<Longrightarrow> placePixel p s = Inr (False, s)"
  by (simp add: placePixel_def)

lemma placePixel_free:
  "boardGet (board s) (py p) (px p) = Inr c \<Longrightarrow> \<not> truthy c \<Longrightarrow>
   placePixel p s =
     Inr (True, s\<lparr>board := (board s)[py p := rowSet (board s ! py p) (px p) (Some (pid p))],
                   pixels := AList.update (pid p) p (pixels s)\<rparr>)"
  by (auto simp: placePixel_def boardGet_def boardSet_def split: if_splits)

lemma placePixel_throws:
  "\<not> py p < length (board s) \<Longrightarrow> placePixel p s = Inl TypeError"
  by (simp add: placePixel_def boardGet_def)


lemma mutateGenes_Inl:
  assumes "mutateGenes rnd k g = Inl e"
  shows "e = Diverges \<and> (\<exists>f. \<forall>j. geneDraw rnd (k + 2 + j) = f)"
proof -
  from assms obtain f where "pickTo rnd (k + 2) f = None" and "e = Diverges"
    unfolding mutateGenes_def Let_def
    by (auto split: if_splits option.splits)
  then show ?thesis by (auto simp: pickTo_None_iff)
qed

lemma tryOffsets_skip:
  "codeBlocked s parent (dx, dy) \<Longrightarrow>
   tryOffsets rnd k parent ((dx, dy) # offs) s = tryOffsets rnd k parent offs s"
  by (auto simp: codeBlocked_def Let_def split: sum.splits)


lemma spawn_frame:
  assumes cell: "boardGet (board s) ny nx = Inr c" "\<not> truthy c"
    and bounds: "nx < gridSize" "ny < gridSize"
    and place: "placePixel (fst (newPixel nx ny g pop s)) (snd (newPixel nx ny g pop s)) = Inr (placed, s')"
  shows "offspringFrame s s'"
proof -
  let ?child = "fst (newPixel nx ny g pop s)"
  let ?s1 = "snd (newPixel nx ny g pop s)"
  have ch: "px ?child = nx" "py ?child = ny" "pid ?child = pixelIdCounter s" "board ?s1 = board s"
    "pixels ?s1 = pixels s"
    by (simp_all add: newPixel_def)
  have len: "ny < length (board s)"
    using cell(1) by (auto simp: boardGet_def split: if_splits)
  have "placePixel ?child ?s1 =
     Inr (True, ?s1\<lparr>board := (board ?s1)[py ?child := rowSet (board ?s1 ! py ?child) (px ?child) (Some (pid ?child))],
                   pixels := AList.update (pid ?child) ?child (pixels ?s1)\<rparr>)"
    using cell by (intro placePixel_free [where c = c]) (simp_all add: ch)
  with place have "s' = ?s1\<lparr>board := (board s)[ny := rowSet (board s ! ny) nx (Some (pixelIdCounter s))],
                   pixels := AList.update (pixelIdCounter s) ?child (pixels s)\<rparr>"
    by (simp add: ch)
  then have "s' = s\<lparr>pixelIdCounter := pixelIdCounter s + 1,
                board := (board s)[py ?child := rowSet (board s ! py ?child) (px ?child)
                                                (Some (pixelIdCounter s))],
                pixels := AList.update (pixelIdCounter s) ?child (pixels s)\<rparr>"
    by (simp add: newPixel_def)
  then show ?thesis
    unfolding offspringFrame_def using cell bounds len ch by (intro disjI2 exI [of _ ?child] exI [of _ c]) simp
qed

lemma tryOffsets_frame:
  "tryOffsets rnd k parent offs s = Inr (k', s') \<Longrightarrow> offspringFrame s s'"
proof (induction offs)
  case Nil
  then show ?case by (simp add: offspringFrame_def)
next
  case (Cons off offs)
  obtain dx dy where off: "off = (dx, dy)" by (cases off)
  let ?nx = "int (px parent) + dx" and ?ny = "int (py parent) + dy"
  show ?case
  proof (cases "codeBlocked s parent (dx, dy)")
    case True
    then have "tryOffsets rnd k parent (off # offs) s = tryOffsets rnd k parent offs s"
      unfolding off by (rule tryOffsets_skip)
    with Cons show ?thesis by simp
  next
    case False
    then have inb: "0 \<le> ?nx" "0 \<le> ?ny" "?nx < int gridSize" "?ny < int gridSize"
      by (auto simp: codeBlocked_def Let_def)
    from False Cons.prems obtain c where c: "boardGet (board s) (nat ?ny) (nat ?nx) = Inr c" "\<not> truthy c"
      unfolding off by (auto simp: codeBlocked_def Let_def split: sum.splits if_splits)
    from Cons.prems c inb obtain g k1 placed where
      "placePixel (fst (newPixel (nat ?nx) (nat ?ny) g (populationId parent) s))
                  (snd (newPixel (nat ?nx) (nat ?ny) g (populationId parent) s)) = Inr (placed, s')"
      unfolding off by (auto simp: Let_def split_beta split: sum.splits if_splits)
    with c inb show ?thesis
      by (intro spawn_frame [where nx = "nat ?nx" and ny = "nat ?ny"]) auto
  qed
qed

lemma tryOffsets_Inl:
  assumes "gridSize \<le> length (board s)" and "tryOffsets rnd k parent offs s = Inl e"
  shows "e = Diverges \<and> (\<exists>f. \<forall>j. geneDraw rnd (k + 2 + j) = f)"
  using assms(2)
proof (induction offs)
  case Nil
  then show ?case by simp
next
  case (Cons off offs)
  obtain dx dy where off: "off = (dx, dy)" by (cases off)
  let ?nx = "int (px parent) + dx" and ?ny = "int (py parent) + dy"
  show ?case
  proof (cases "?nx < 0 \<or> ?ny < 0 \<or> ?nx \<ge> int gridSize \<or> ?ny \<ge> int gridSize")
    case True
    then have "tryOffsets rnd k parent (off # offs) s = tryOffsets rnd k parent offs s"
      unfolding off by (auto simp: Let_def)
    with Cons show ?thesis by simp
  next
    case False
    then have ny: "nat ?ny < length (board s)" using assms(1) by auto
    then obtain c where c: "boardGet (board s) (nat ?ny) (nat ?nx) = Inr c"
      by (simp add: boardGet_def)
    show ?thesis
    proof (cases "truthy c")
      case True
      then have "tryOffsets rnd k parent (off # offs) s = tryOffsets rnd k parent offs s"
        unfolding off using False c by (auto simp: Let_def)
      with Cons show ?thesis by simp
    next
      case free: False
      show ?thesis
      proof (cases "mutateGenes rnd k (genes parent)")
        case (Inl e')
        then have "tryOffsets rnd k parent (off # offs) s = Inl e'"
          unfolding off using False c free by (auto simp: Let_def)
        with Cons.prems Inl show ?thesis using mutateGenes_Inl by auto
      next
        case (Inr r)
        obtain g k1 where r: "r = (g, k1)" by (cases r)
        let ?child = "fst (newPixel (nat ?nx) (nat ?ny) g (populationId parent) s)"
        let ?s1 = "snd (newPixel (nat ?nx) (nat ?ny) g (populationId parent) s)"
        have "boardGet (board ?s1) (py ?child) (px ?child) = Inr c"
          using c by (simp add: newPixel_def)
        from placePixel_free [OF this free]
        have "tryOffsets rnd k parent (off # offs) s = Inr (k1, snd (projr (placePixel ?child ?s1)))"
          unfolding off using False c free Inr r by (auto simp: Let_def split_beta)
        with Cons.prems show ?thesis by simp
      qed
    qed
  qed
qed

lemma shuffleFrom_cursor: "snd (shuffleFrom rnd k i xs) = k + i"
  by (induction i arbitrary: k xs) (simp_all add: Let_def)

lemma upto_m1_2: "[-1..2] = [-1, 0, 1, (2::int)]"
  by code_simp

lemma offsets_list:
  "offsets = [(0, -2), (-1, -1), (0, -1), (1, -1), (-2, 0), (-1, 0), (1, 0), (2, 0),
              (-1, 1), (0, 1), (1, 1), (0, 2)]"
  by (simp add: offsets_def upto_m1_2)


lemma length_offsets: "length offsets = 12"
  by (simp add: offsets_list)


lemma shuffle_offsets_cursor: "snd (shuffle rnd k offsets) = k + 11"
  unfolding shuffle_def shuffleFrom_cursor by (simp add: length_offsets)

lemma createOffspring_tryOffsets:
  "createOffspring rnd k parent s =
     tryOffsets rnd (k + 11) parent (fst (shuffle rnd k offsets)) s"
  using shuffle_offsets_cursor [of rnd k] by (simp add: createOffspring_def split_beta)


lemma createOffspring_frame:
  "createOffspring rnd k parent s = Inr (k', s') \<Longrightarrow> offspringFrame s s'"
  unfolding createOffspring_tryOffsets by (rule tryOffsets_frame)

lemma createOffspring_Inl:
  assumes "gridSize \<le> length (board s)" and "createOffspring rnd k parent s = Inl e"
  shows "e = Diverges \<and> (\<exists>f. \<forall>j. geneDraw rnd (k + 13 + j) = f)"
proof -
  have "e = Diverges \<and> (\<exists>f. \<forall>j. geneDraw rnd (k + 11 + 2 + j) = f)"
    using assms unfolding createOffspring_tryOffsets by (rule tryOffsets_Inl)
  then obtain f where e: "e = Diverges" and f: "\<And>j. geneDraw rnd (k + 11 + 2 + j) = f"
    by blast
  have "geneDraw rnd (k + 13 + j) = f" for j
  proof -
    have "k + 13 + j = k + 11 + 2 + j" by simp
    then show ?thesis using f [of j] by (simp only:)
  qed
  with e show ?thesis by blast
qed

section \<open>Properties of combat\<close>

lemma duel_outcome:
  assumes "0 < php attacker" and "0 < php defender"
  obtains a' d' turns where
    "duel attacker defender = (a', d', turns)"
    "a' = attacker\<lparr>php := php a'\<rparr>" "d' = defender\<lparr>php := php d'\<rparr>"
    "(0 < php a' \<and> php d' \<le> 0 \<and> int (length turns) \<le> 2 * php defender) \<or>
     (php a' \<le> 0 \<and> 0 < php d' \<and> int (length turns) \<le> 2 * php attacker)"
proof -
  obtain a' d' turns where r: "duel attacker defender = (a', d', turns)"
    by (cases "duel attacker defender")
  have "duelOutcome attacker defender (firstIsAttacker attacker defender) [] (a', d', turns)"
    using duelLoop_outcome [OF assms, of "firstIsAttacker attacker defender" "[]"] r
    by (simp add: duel_def)
  then have "a' = attacker\<lparr>php := php a'\<rparr>" "d' = defender\<lparr>php := php d'\<rparr>"
    "(0 < php a' \<and> php d' \<le> 0 \<and> int (length turns) \<le> 2 * php defender) \<or>
     (php a' \<le> 0 \<and> 0 < php d' \<and> int (length turns) \<le> 2 * php attacker)"
    unfolding duelOutcome_def by (auto split: if_splits)
  with r show ?thesis by (rule that)
qed

lemma removePixel_Inr:
  "py p < length (board s) \<Longrightarrow>
   removePixel p s = Inr (s\<lparr>board := (board s)[py p := rowSet (board s ! py p) (px p) None],
                           pixels := AList.delete (pid p) (pixels s)\<rparr>)"
  by (simp add: removePixel_def boardSet_def)

lemma removePixel_Inl:
  "\<not> py p < length (board s) \<Longrightarrow> removePixel p s = Inl TypeError"
  by (simp add: removePixel_def boardSet_def)

lemma resolveCombat_run:
  assumes alive: "0 < php attacker" "0 < php defender"
  shows "resolveCombat rnd k attacker defender s =
     (if py (duelLoser attacker defender) < length (board s) then
        (case createOffspring rnd k
                ((duelWinner attacker defender)\<lparr>php := maxHp (duelWinner attacker defender)\<rparr>)
                (settled attacker defender s) of
           Inl e \<Rightarrow> Inl e
         | Inr (k', s') \<Rightarrow>
             Inr ((duelWinner attacker defender)\<lparr>php := maxHp (duelWinner attacker defender)\<rparr>, k', s'))
      else Inl TypeError)"
proof -
  from alive obtain a' d' turns where
    r: "duel attacker defender = (a', d', turns)" and
    a': "a' = attacker\<lparr>php := php a'\<rparr>" and d': "d' = defender\<lparr>php := php d'\<rparr>" and
    out: "(0 < php a' \<and> php d' \<le> 0 \<and> int (length turns) \<le> 2 * php defender) \<or>
     (php a' \<le> 0 \<and> 0 < php d' \<and> int (length turns) \<le> 2 * php attacker)"
    by (rule duel_outcome)
  have ids: "pid a' = pid attacker" "pid d' = pid defender"
    using a' d' by (metis pixel.select_convs(1) pixel.surjective pixel.update_convs(7))+
  show ?thesis
  proof (cases "0 < php a'")
    case True
    then have dead: "php d' \<le> 0" using out by auto
    have W: "duelWinner attacker defender = a'" and L: "duelLoser attacker defender = d'"
      using True r by (simp_all add: duelWinner_def duelLoser_def)
    show ?thesis
      unfolding W L
      by (cases "py d' < length (board s)")
         (simp_all add: resolveCombat_def r True dead Let_def removePixel_Inr removePixel_Inl
            logCombat_def settled_def W L ids)
  next
    case False
    then have dead: "php a' \<le> 0" by simp
    have W: "duelWinner attacker defender = d'" and L: "duelLoser attacker defender = a'"
      using False r by (simp_all add: duelWinner_def duelLoser_def)
    show ?thesis
      unfolding W L
      by (cases "py a' < length (board s)")
         (simp_all add: resolveCombat_def r False dead Let_def removePixel_Inr removePixel_Inl
            logCombat_def settled_def W L ids)
  qed
qed


lemma duel_ids:
  assumes "0 < php attacker" and "0 < php defender"
  shows "duelWinner attacker defender = attacker\<lparr>php := php (duelWinner attacker defender)\<rparr> \<and>
           duelLoser attacker defender = defender\<lparr>php := php (duelLoser attacker defender)\<rparr> \<or>
         duelWinner attacker defender = defender\<lparr>php := php (duelWinner attacker defender)\<rparr> \<and>
           duelLoser attacker defender = attacker\<lparr>php := php (duelLoser attacker defender)\<rparr>"
    and "0 < php (duelWinner attacker defender)" and "php (duelLoser attacker defender) \<le> 0"
proof -
  from assms obtain a' d' turns where
    r: "duel attacker defender = (a', d', turns)" and
    a': "a' = attacker\<lparr>php := php a'\<rparr>" and d': "d' = defender\<lparr>php := php d'\<rparr>" and
    out: "(0 < php a' \<and> php d' \<le> 0 \<and> int (length turns) \<le> 2 * php defender) \<or>
     (php a' \<le> 0 \<and> 0 < php d' \<and> int (length turns) \<le> 2 * php attacker)"
    by (rule duel_outcome)
  show "duelWinner attacker defender = attacker\<lparr>php := php (duelWinner attacker defender)\<rparr> \<and>
           duelLoser attacker defender = defender\<lparr>php := php (duelLoser attacker defender)\<rparr> \<or>
         duelWinner attacker defender = defender\<lparr>php := php (duelWinner attacker defender)\<rparr> \<and>
           duelLoser attacker defender = attacker\<lparr>php := php (duelLoser attacker defender)\<rparr>"
    using a' d' by (cases "0 < php a'") (simp_all add: duelWinner_def duelLoser_def r)
  show "0 < php (duelWinner attacker defender)" "php (duelLoser attacker defender) \<le> 0"
    using out by (auto simp: duelWinner_def duelLoser_def r)
qed

text \<open>
  C3, amended. For two distinct pixels that both start with hit points, on a board of
  \<open>gridSize\<close> rows that holds both: the duel loop ends with exactly one of them at
  zero or fewer hit points, after at most twice as many turns as the loser had hit
  points at the start; and \<^verbatim>\<open>resolveCombat\<close> returns the other one, healed. The only
  run that does not return is the one in which the destination loop of the offspring's
  mutation never ends, every draw from the fourteenth on being the same category.
\<close>

theorem resolveCombat_terminates:
  assumes "0 < php attacker" and "0 < php defender" and "pid attacker \<noteq> pid defender"
    and "length (board s) = gridSize" and "py attacker < gridSize" and "py defender < gridSize"
  shows "case duel attacker defender of
           (a', d', turns) \<Rightarrow>
             ((0 < php a' \<and> php d' \<le> 0 \<and> int (length turns) \<le> 2 * php defender) \<or>
              (php a' \<le> 0 \<and> 0 < php d' \<and> int (length turns) \<le> 2 * php attacker)) \<and>
             (case resolveCombat rnd k attacker defender s of
                Inr (winner, k', s') \<Rightarrow>
                  winner = (if 0 < php a' then attacker\<lparr>php := maxHp attacker\<rparr>
                            else defender\<lparr>php := maxHp defender\<rparr>)
              | Inl e \<Rightarrow> e = Diverges \<and> (\<exists>f. \<forall>j. geneDraw rnd (k + 13 + j) = f))"
proof -
  from assms(1,2) obtain a' d' turns where
    r: "duel attacker defender = (a', d', turns)" and
    a': "a' = attacker\<lparr>php := php a'\<rparr>" and d': "d' = defender\<lparr>php := php d'\<rparr>" and
    out: "(0 < php a' \<and> php d' \<le> 0 \<and> int (length turns) \<le> 2 * php defender) \<or>
     (php a' \<le> 0 \<and> 0 < php d' \<and> int (length turns) \<le> 2 * php attacker)"
    by (rule duel_outcome)
  let ?W = "duelWinner attacker defender" and ?L = "duelLoser attacker defender"
  have W: "?W\<lparr>php := maxHp ?W\<rparr> =
      (if 0 < php a' then attacker\<lparr>php := maxHp attacker\<rparr> else defender\<lparr>php := maxHp defender\<rparr>)"
  proof (cases "0 < php a'")
    case True
    then have "?W = a'" by (simp add: duelWinner_def r)
    then have "?W\<lparr>php := maxHp ?W\<rparr> = attacker\<lparr>php := php a'\<rparr>\<lparr>php := maxHp (attacker\<lparr>php := php a'\<rparr>)\<rparr>"
      using a' by simp
    with True show ?thesis by simp
  next
    case False
    then have "?W = d'" by (simp add: duelWinner_def r)
    then have "?W\<lparr>php := maxHp ?W\<rparr> = defender\<lparr>php := php d'\<rparr>\<lparr>php := maxHp (defender\<lparr>php := php d'\<rparr>)\<rparr>"
      using d' by simp
    with False show ?thesis by simp
  qed
  have "py a' = py attacker" "py d' = py defender"
    using a' d' by (metis pixel.select_convs(3) pixel.surjective pixel.update_convs(7))+
  then have L: "py ?L < length (board s)"
    using assms(4,5,6) by (simp add: duelLoser_def r)
  have board: "gridSize \<le> length (board (settled attacker defender s))"
    using assms(4) by (simp add: settled_def Let_def logCombat_def)
  have run: "resolveCombat rnd k attacker defender s =
     (case createOffspring rnd k (?W\<lparr>php := maxHp ?W\<rparr>) (settled attacker defender s) of
        Inl e \<Rightarrow> Inl e
      | Inr (k', s') \<Rightarrow> Inr (?W\<lparr>php := maxHp ?W\<rparr>, k', s'))"
    using resolveCombat_run [OF assms(1,2), of rnd k s] L by simp
  have "case resolveCombat rnd k attacker defender s of
          Inr (winner, k', s') \<Rightarrow>
            winner = (if 0 < php a' then attacker\<lparr>php := maxHp attacker\<rparr>
                      else defender\<lparr>php := maxHp defender\<rparr>)
        | Inl e \<Rightarrow> e = Diverges \<and> (\<exists>f. \<forall>j. geneDraw rnd (k + 13 + j) = f)"
  proof (cases "createOffspring rnd k (?W\<lparr>php := maxHp ?W\<rparr>) (settled attacker defender s)")
    case (Inl e)
    from createOffspring_Inl [OF board Inl] show ?thesis
      unfolding run Inl by simp
  next
    case (Inr res)
    then show ?thesis unfolding run using W by (cases res) simp
  qed
  with out show ?thesis unfolding r by simp
qed

lemma rndAlternate_draws: "geneDraw rndAlternate (2 * n) = Attack" "geneDraw rndAlternate (2 * n + 1) = Speed"
  by (simp_all add: geneDraw_def rndAlternate_def randomIndex_def random_def GENE_TYPES_def frac_eq)

lemma rndAlternate_varied: "\<not> (\<forall>j. geneDraw rndAlternate (k + j) = f)"
proof
  assume all: "\<forall>j. geneDraw rndAlternate (k + j) = f"
  have "geneDraw rndAlternate (2 * k) = f" using all [rule_format, of k] by (simp add: mult_2)
  moreover have "geneDraw rndAlternate (2 * k + 1) = f" using all [rule_format, of "k + 1"] by (simp add: mult_2)
  ultimately show False using rndAlternate_draws [of k] by simp
qed

lemma settled_facts:
  assumes L: "py (duelLoser attacker defender) < length (board s)"
  shows "pixelIdCounter (settled attacker defender s) = pixelIdCounter s"
    and "boardGet (board (settled attacker defender s)) y x =
           (if y = py (duelLoser attacker defender) \<and> x = px (duelLoser attacker defender)
            then Inr None else boardGet (board s) y x)"
    and "map_of (pixels (settled attacker defender s)) (pid (duelLoser attacker defender)) = None"
proof -
  let ?L = "duelLoser attacker defender"
  show "pixelIdCounter (settled attacker defender s) = pixelIdCounter s"
    by (simp add: settled_def Let_def logCombat_def)
  have "boardSet (board s) (py ?L) (px ?L) None = Inr (board (settled attacker defender s))"
    using L by (simp add: settled_def Let_def logCombat_def boardSet_Inr)
  from boardGet_boardSet [OF this]
  show "boardGet (board (settled attacker defender s)) y x =
           (if y = py ?L \<and> x = px ?L then Inr None else boardGet (board s) y x)" .
  show "map_of (pixels (settled attacker defender s)) (pid ?L) = None"
    by (simp add: settled_def Let_def logCombat_def map_of_objWrite map_of_registry_delete)
qed

lemma settled_winner:
  assumes alive: "0 < php attacker" "0 < php defender"
    and reg: "map_of (pixels s) (pid attacker) = Some attacker"
             "map_of (pixels s) (pid defender) = Some defender"
    and ids: "pid attacker \<noteq> pid defender"
  shows "map_of (pixels (settled attacker defender s)) (pid (duelWinner attacker defender)) =
           Some ((duelWinner attacker defender)\<lparr>php := maxHp (duelWinner attacker defender)\<rparr>)"
proof -
  from alive obtain a' d' turns where
    r: "duel attacker defender = (a', d', turns)" and
    a': "a' = attacker\<lparr>php := php a'\<rparr>" and d': "d' = defender\<lparr>php := php d'\<rparr>"
    by (rule duel_outcome)
  have pa: "pid a' = pid attacker" and pd: "pid d' = pid defender"
    using a' d' by (metis pixel.select_convs(1) pixel.surjective pixel.update_convs(7))+
  show ?thesis
  proof (cases "0 < php a'")
    case True
    then have W: "duelWinner attacker defender = a'" and L: "duelLoser attacker defender = d'"
      by (simp_all add: duelWinner_def duelLoser_def r)
    have "map_of (pixels (settled attacker defender s)) (pid a') = Some (attacker\<lparr>php := maxHp a'\<rparr>)"
      using reg ids
      by (simp add: settled_def Let_def logCombat_def W L map_of_objWrite map_of_registry_delete pa pd r)
    moreover have "a'\<lparr>php := maxHp a'\<rparr> = attacker\<lparr>php := maxHp a'\<rparr>"
      by (subst a') simp
    ultimately show ?thesis by (simp add: W)
  next
    case False
    then have W: "duelWinner attacker defender = d'" and L: "duelLoser attacker defender = a'"
      by (simp_all add: duelWinner_def duelLoser_def r)
    have "map_of (pixels (settled attacker defender s)) (pid d') = Some (defender\<lparr>php := maxHp d'\<rparr>)"
      using reg ids
      by (simp add: settled_def Let_def logCombat_def W L map_of_objWrite map_of_registry_delete pa pd r)
    moreover have "d'\<lparr>php := maxHp d'\<rparr> = defender\<lparr>php := maxHp d'\<rparr>"
      by (subst d') simp
    ultimately show ?thesis by (simp add: W)
  qed
qed

lemma offspringFrame_registry:
  assumes "offspringFrame s s'" and "i \<noteq> pixelIdCounter s"
  shows "map_of (pixels s') i = map_of (pixels s) i"
  using assms unfolding offspringFrame_def by (auto simp: map_of_registry_update)

lemma offspringFrame_board:
  assumes "offspringFrame s s'" and "i \<noteq> pixelIdCounter s"
    and "boardGet (board s') y x = Inr (Some i)"
  shows "boardGet (board s) y x = Inr (Some i)"
  using assms(1) unfolding offspringFrame_def
proof (elim disjE exE conjE)
  assume "s' = s"
  with assms(3) show ?thesis by simp
next
  fix child c
  assume len: "py child < length (board s)"
    and s': "s' = s\<lparr>pixelIdCounter := pixelIdCounter s + 1,
                board := (board s)[py child := rowSet (board s ! py child) (px child)
                                                (Some (pixelIdCounter s))],
                pixels := AList.update (pixelIdCounter s) child (pixels s)\<rparr>"
  have "boardSet (board s) (py child) (px child) (Some (pixelIdCounter s)) = Inr (board s')"
    using len by (simp add: boardSet_Inr s')
  from boardGet_boardSet [OF this, of y x] assms(2,3) show ?thesis
    by (auto split: if_splits)
qed

lemma duel_slow_sides:
  "duelWinner slowA slowD = slowA\<lparr>php := 1\<rparr>" "duelLoser slowA slowD = slowD\<lparr>php := 0\<rparr>"
proof -
  have "0 < php (slowA\<lparr>php := 1\<rparr>)" by simp
  then show "duelWinner slowA slowD = slowA\<lparr>php := 1\<rparr>" "duelLoser slowA slowD = slowD\<lparr>php := 0\<rparr>"
    unfolding duelWinner_def duelLoser_def duel_slow by simp_all
qed

lemma slow_fields:
  "pid slowA = 1" "pid slowD = 2" "px slowD = 1" "py slowD = 0" "py slowA = 0" "px slowA = 0"
  "php slowA = 3" "php slowD = 3" "maxHp slowA = 3"
  by (simp_all add: slowA_def slowD_def pixelAt_def)

lemma resolveCombat_slow_returns:
  "\<exists>k' s'. resolveCombat rndAlternate 0 slowA slowD duelWorld = Inr (slowA, k', s')"
proof -
  have alive: "0 < php slowA" "0 < php slowD"
    by (simp_all add: slowA_def slowD_def pixelAt_def)
  have W: "(duelWinner slowA slowD)\<lparr>php := maxHp (duelWinner slowA slowD)\<rparr> = slowA"
    unfolding duel_slow_sides by (simp add: slowA_def pixelAt_def)
  have L: "py (duelLoser slowA slowD) < length (board duelWorld)"
    unfolding duel_slow_sides by (simp add: slow_fields duelWorld_def emptyBoard_def gridSize_def)
  have run: "resolveCombat rndAlternate 0 slowA slowD duelWorld =
     (case createOffspring rndAlternate 0 slowA (settled slowA slowD duelWorld) of
        Inl e \<Rightarrow> Inl e | Inr (k', s') \<Rightarrow> Inr (slowA, k', s'))"
    using resolveCombat_run [OF alive, of rndAlternate 0 duelWorld, unfolded W] L by simp
  have "gridSize \<le> length (board (settled slowA slowD duelWorld))"
    by (simp add: settled_def Let_def logCombat_def duelWorld_def emptyBoard_def)
  then have "createOffspring rndAlternate 0 slowA (settled slowA slowD duelWorld) \<noteq> Inl e" for e
    using createOffspring_Inl [of "settled slowA slowD duelWorld" rndAlternate 0 slowA e]
      rndAlternate_varied [of "0 + 13"] by blast
  then obtain k' s' where
    "createOffspring rndAlternate 0 slowA (settled slowA slowD duelWorld) = Inr (k', s')"
    by (cases "createOffspring rndAlternate 0 slowA (settled slowA slowD duelWorld)") auto
  then show ?thesis unfolding run by simp
qed

text \<open>
  C4. For two distinct registered pixels with hit points and ids below the id counter,
  after \<^verbatim>\<open>resolveCombat\<close> returns: the loser has no hit points; its id is not in the
  registry; its recorded cell does not hold its id and no cell holds its id that did
  not before; the returned winner has \<open>hp = maxHp\<close> and is the registry's entry under
  its id.
\<close>

theorem resolveCombat_effects:
  assumes reg: "map_of (pixels s) (pid attacker) = Some attacker"
               "map_of (pixels s) (pid defender) = Some defender"
    and ids: "pid attacker \<noteq> pid defender"
    and alive: "0 < php attacker" "0 < php defender"
    and fresh: "pid attacker < pixelIdCounter s" "pid defender < pixelIdCounter s"
    and ret: "resolveCombat rnd k attacker defender s = Inr (winner, k', s')"
  shows "let loser = duelLoser attacker defender
         in php loser \<le> 0 \<and>
            {pid winner, pid loser} = {pid attacker, pid defender} \<and>
            map_of (pixels s') (pid loser) = None \<and>
            boardGet (board s') (py loser) (px loser) \<noteq> Inr (Some (pid loser)) \<and>
            (\<forall>y x. boardGet (board s') y x = Inr (Some (pid loser)) \<longrightarrow>
                   boardGet (board s) y x = Inr (Some (pid loser))) \<and>
            php winner = maxHp winner \<and>
            map_of (pixels s') (pid winner) = Some winner"
proof -
  let ?W = "duelWinner attacker defender" and ?L = "duelLoser attacker defender"
  let ?s4 = "settled attacker defender s"
  note run = resolveCombat_run [OF alive, of rnd k s]
  have L: "py ?L < length (board s)"
    using run ret by (auto split: if_splits)
  have off: "createOffspring rnd k (?W\<lparr>php := maxHp ?W\<rparr>) ?s4 = Inr (k', s')"
    and winner: "winner = ?W\<lparr>php := maxHp ?W\<rparr>"
    using run ret L by (auto split: sum.splits)
  have frame: "offspringFrame ?s4 s'"
    using off by (rule createOffspring_frame)
  note s4 = settled_facts [OF L]
  have pids: "pid ?W = pid attacker \<and> pid ?L = pid defender \<or>
              pid ?W = pid defender \<and> pid ?L = pid attacker"
    using duel_ids(1) [OF alive]
    by (metis pixel.select_convs(1) pixel.surjective pixel.update_convs(7))
  have dead: "php ?L \<le> 0" using duel_ids(3) [OF alive] .
  have freshL: "pid ?L \<noteq> pixelIdCounter ?s4" and freshW: "pid ?W \<noteq> pixelIdCounter ?s4"
    using pids fresh by (auto simp: s4(1))
  have c1: "{pid winner, pid ?L} = {pid attacker, pid defender}"
    using pids by (auto simp: winner)
  have c2: "map_of (pixels s') (pid ?L) = None"
    using offspringFrame_registry [OF frame freshL] s4(3) by simp
  have gone: "boardGet (board s) y x = Inr (Some (pid ?L)) \<and> \<not> (y = py ?L \<and> x = px ?L)"
    if "boardGet (board s') y x = Inr (Some (pid ?L))" for y x
  proof -
    from offspringFrame_board [OF frame freshL that]
    have "boardGet (board ?s4) y x = Inr (Some (pid ?L))" .
    then show ?thesis unfolding s4(2) by (auto split: if_splits)
  qed
  have c3: "boardGet (board s') (py ?L) (px ?L) \<noteq> Inr (Some (pid ?L))"
    using gone by blast
  have c4: "\<forall>y x. boardGet (board s') y x = Inr (Some (pid ?L)) \<longrightarrow>
                   boardGet (board s) y x = Inr (Some (pid ?L))"
    using gone by blast
  have c5: "php winner = maxHp winner" by (simp add: winner)
  have "map_of (pixels s') (pid ?W) = map_of (pixels ?s4) (pid ?W)"
    using frame freshW by (rule offspringFrame_registry)
  then have c6: "map_of (pixels s') (pid winner) = Some winner"
    using settled_winner [OF alive reg ids] by (simp add: winner)
  show ?thesis
    unfolding Let_def using dead c1 c2 c3 c4 c5 c6 by blast
qed

theorem resolveCombat_effects_witness:
  "\<exists>k' s'. resolveCombat rndAlternate 0 slowA slowD duelWorld = Inr (slowA, k', s') \<and>
     duelLoser slowA slowD = slowD\<lparr>php := 0\<rparr> \<and>
     map_of (pixels duelWorld) 2 = Some slowD \<and>
     map_of (pixels s') 2 = None \<and>
     boardGet (board duelWorld) 0 1 = Inr (Some 2) \<and>
     boardGet (board s') 0 1 \<noteq> Inr (Some 2) \<and>
     php slowA = maxHp slowA \<and> map_of (pixels s') 1 = Some slowA"
proof -
  obtain k' s' where ret: "resolveCombat rndAlternate 0 slowA slowD duelWorld = Inr (slowA, k', s')"
    using resolveCombat_slow_returns by blast
  have alive: "0 < php slowA" "0 < php slowD" and ids: "pid slowA \<noteq> pid slowD"
    by (simp_all add: slowA_def slowD_def pixelAt_def)
  have reg: "map_of (pixels duelWorld) (pid slowA) = Some slowA"
    "map_of (pixels duelWorld) (pid slowD) = Some slowD"
    by (simp_all add: duelWorld_def slowA_def slowD_def pixelAt_def)
  have fresh: "pid slowA < pixelIdCounter duelWorld" "pid slowD < pixelIdCounter duelWorld"
    by (simp_all add: duelWorld_def slowA_def slowD_def pixelAt_def)
  have loser: "duelLoser slowA slowD = slowD\<lparr>php := 0\<rparr>"
    by (rule duel_slow_sides)
  have before: "boardGet (board duelWorld) 0 1 = Inr (Some 2)"
    by (simp add: duelWorld_def emptyBoard_def gridSize_def boardGet_def)
  show ?thesis
    using resolveCombat_effects [OF reg ids alive fresh ret] ret before reg
    by (simp add: loser slow_fields)
qed


theorem resolveCombat_terminates_witness:
  "0 < php slowA \<and> 0 < php slowD \<and> pid slowA \<noteq> pid slowD \<and>
   length (board duelWorld) = gridSize \<and> py slowA < gridSize \<and> py slowD < gridSize \<and>
   length (snd (snd (duel slowA slowD))) = 5 \<and>
   (\<exists>k' s'. resolveCombat rndAlternate 0 slowA slowD duelWorld = Inr (slowA, k', s'))"
proof -
  have hyps: "0 < php slowA" "0 < php slowD" "pid slowA \<noteq> pid slowD"
    "length (board duelWorld) = gridSize" "py slowA < gridSize" "py slowD < gridSize"
    by (simp_all add: slowA_def slowD_def pixelAt_def duelWorld_def emptyBoard_def gridSize_def)
  show ?thesis
    using resolveCombat_terminates [OF hyps, of rndAlternate 0] resolveCombat_slow_returns hyps
    by (simp add: duel_slow)
qed

section \<open>Placement\<close>

text \<open>
  What \<^verbatim>\<open>placePixel\<close> does is decided by the truth value of the target cell
  (\<open>placePixel_occupied\<close>, \<open>placePixel_free\<close>), and a cell that holds the id 0 is
  false. The first pixel ever built has id 0. Seeding two pixels at the same cell from
  the empty state places both.
\<close>

lemma seed_first: "seedPixels rndZero 0 1 plainGenes 0 0 0 emptyWorld = Inr (2, seededWorld)"
  by code_simp

lemma seed_two: "seedPixels rndZero 0 2 plainGenes 0 0 0 emptyWorld = Inr (4, overlaidWorld)"
  by code_simp

text \<open>
  C2 at a failing input. In \<open>seededWorld\<close> the cell \<open>(0, 0)\<close> holds the id of the
  registered pixel 0. \<^verbatim>\<open>placePixel\<close> of the next pixel built for that cell returns
  true, writes the id 1 over the id 0, and registers the pixel; the pixel of id 0 stays
  registered at \<open>(0, 0)\<close>.
\<close>

theorem placePixel_over_id_zero:
  "boardGet (board seededWorld) 0 0 = Inr (Some 0) \<and>
   map_of (pixels seededWorld) 0 = Some (pixelAt 0 0 0 plainGenes) \<and>
   newPixel 0 0 plainGenes 0 seededWorld =
     (pixelAt 1 0 0 plainGenes, seededWorld\<lparr>pixelIdCounter := 2\<rparr>) \<and>
   placePixel (pixelAt 1 0 0 plainGenes) (seededWorld\<lparr>pixelIdCounter := 2\<rparr>) =
     Inr (True, overlaidWorld) \<and>
   boardGet (board overlaidWorld) 0 0 = Inr (Some 1) \<and>
   map_of (pixels overlaidWorld) 0 = Some (pixelAt 0 0 0 plainGenes) \<and>
   map_of (pixels overlaidWorld) 1 = Some (pixelAt 1 0 0 plainGenes)"
  by code_simp

text \<open>
  The seeding of the source itself, run on the empty state with every draw 0, ends in
  a state that is not consistent: the pixels of id 0 and id 1 are both registered at
  \<open>(0, 0)\<close>.
\<close>

lemma initialise_zero: "initialisePopulations rndZero 0 emptyWorld = Inr (1260, seededAll)"
  by code_simp

lemma seededAll_broken: "\<not> occupancyConsistent seededAll"
  by code_simp

section \<open>Blocked reproduction\<close>


lemma crowd_consistent: "occupancyConsistent crowdWorld"
  by code_simp


lemma packed_consistent: "occupancyConsistent packedWorld"
  by code_simp


section \<open>Sub-steps onto a pixel of the same gene code\<close>

text \<open>
  When the target cell holds the id of a registered pixel with the gene code of the
  mover, no combat takes place: the sub-step ends with \<open>Continue\<close> after its one draw,
  the combat log, the id counter and the registered ids are as before. If that id is not
  0, nothing at all changes.
\<close>

lemma subStep_same_code:
  assumes target: "stepTarget rnd k pixel = (nx, ny)"
    and cell: "boardGet (board s) ny nx = Inr (Some oid)" and nonzero: "oid \<noteq> 0"
    and reg: "map_of (pixels s) oid = Some opponent"
    and same: "geneCode pixel = geneCode opponent"
  shows "subStep rnd k pixel s = Inr (Continue, pixel, k + 1, s)"
  using assms
  by (auto simp: subStep_def stepTarget_def Let_def truthy_def split: prod.splits)

lemma movePixel_logs:
  "movePixel pixel nx ny s = Inr (pixel', s') \<Longrightarrow>
   combatLogs s' = combatLogs s \<and> pixelIdCounter s' = pixelIdCounter s \<and>
   map fst (pixels s') = map fst (pixels s)"
  by (auto simp: movePixel_def Let_def objWrite_def split: sum.splits)

lemma subStep_same_code_no_combat:
  assumes target: "stepTarget rnd k pixel = (nx, ny)"
    and cell: "boardGet (board s) ny nx = Inr (Some oid)"
    and reg: "map_of (pixels s) oid = Some opponent"
    and same: "geneCode pixel = geneCode opponent"
    and ret: "subStep rnd k pixel s = Inr (f, pixel', k', s')"
  shows "f = Continue \<and> k' = k + 1 \<and> combatLogs s' = combatLogs s \<and>
         pixelIdCounter s' = pixelIdCounter s \<and> map fst (pixels s') = map fst (pixels s)"
proof (cases "nx = px pixel \<and> ny = py pixel")
  case True
  then show ?thesis
    using target ret by (auto simp: subStep_def stepTarget_def Let_def split: prod.splits)
next
  case False
  show ?thesis
  proof (cases "truthy (Some oid)")
    case True
    then have "subStep rnd k pixel s = Inr (Continue, pixel, k + 1, s)"
      using target cell reg same False
      by (auto simp: subStep_def stepTarget_def Let_def split: prod.splits)
    with ret show ?thesis by simp
  next
    case falsy: False
    then have "subStep rnd k pixel s =
        (case movePixel pixel nx ny s of Inl e \<Rightarrow> Inl e
         | Inr (pixel', s') \<Rightarrow> Inr (Continue, pixel', k + 1, s'))"
      using target cell False
      by (auto simp: subStep_def stepTarget_def Let_def split: prod.splits)
    with ret obtain "movePixel pixel nx ny s = Inr (pixel', s')" "f = Continue" "k' = k + 1"
      by (auto split: sum.splits)
    with movePixel_logs show ?thesis by blast
  qed
qed

text \<open>
  C6 at a failing input. In \<open>zeroWorld\<close> the pixel \<open>zeroM\<close> draws the direction
  \<open>(1, 0)\<close>; its target cell holds the id of the registered pixel \<open>zeroZ\<close>, which has
  the same gene code and the id 0. The sub-step moves \<open>zeroM\<close> into that cell and
  writes its id over the id 0.
\<close>

theorem subStep_onto_id_zero:
  "geneCode zeroM = geneCode zeroZ \<and>
   map_of (pixels zeroWorld) 0 = Some zeroZ \<and>
   boardGet (board zeroWorld) (py zeroZ) (px zeroZ) = Inr (Some 0) \<and>
   directions ! randomIndex rndZero 1 (length directions) = (1, 0) \<and>
   subStep rndZero 1 zeroM zeroWorld = Inr (Continue, zeroM\<lparr>px := 1\<rparr>, 2, zeroMoved) \<and>
   boardGet (board zeroMoved) (py zeroZ) (px zeroZ) = Inr (Some 1)"
  by code_simp

section \<open>Occupancy consistency\<close>

lemma clash_consistent: "occupancyConsistent clashWorld"
  by code_simp

lemma clash_broken: "\<not> occupancyConsistent clashAfter"
  by code_simp

text \<open>
  C1 at a failing input. \<open>clashWorld\<close> is consistent and holds no pixel of id 0. In
  one simulation step, \<open>clashP\<close> attacks \<open>clashQ\<close> at \<open>(1, 0)\<close> and wins;
  \<open>clashQ\<close> is removed; \<^verbatim>\<open>createOffspring\<close> places the child in the cell
  \<open>(1, 0)\<close> just cleared; then \<open>clashP\<close> moves into \<open>(1, 0)\<close> and writes its id
  over the child's. The state after the step is not consistent: the child is
  registered at \<open>(1, 0)\<close>, and that cell holds the id 2.
\<close>

theorem stepSimulation_breaks_occupancy:
  "occupancyConsistent clashWorld \<and>
   stepSimulation rndClash 0 clashWorld = Inr (14, clashAfter) \<and>
   \<not> occupancyConsistent clashAfter \<and>
   map_of (pixels clashAfter) 3 = Some clashChild \<and>
   boardGet (board clashAfter) (py clashChild) (px clashChild) = Inr (Some 2)"
proof -
  have "stepSimulation rndClash 0 clashWorld = Inr (14, clashAfter)"
    by code_simp
  moreover have "map_of (pixels clashAfter) 3 = Some clashChild"
    by code_simp
  moreover have "boardGet (board clashAfter) (py clashChild) (px clashChild) = Inr (Some 2)"
    by code_simp
  ultimately show ?thesis
    using clash_consistent clash_broken by simp
qed

text \<open>
  The id 0 breaks consistency as well: in one step from the consistent \<open>zeroWorld\<close>,
  the pixel of id 1 moves onto the pixel of id 0, which then moves away and clears the
  cell of the pixel of id 1.
\<close>

lemma zero_consistent: "occupancyConsistent zeroWorld"
  by code_simp

lemma zero_broken: "\<not> occupancyConsistent zeroAfter"
  by code_simp

lemma step_zero: "stepSimulation rndZero 0 zeroWorld = Inr (3, zeroAfter)"
  by code_simp

end
